theory Spec2Isabelle
  imports Main
begin

section \<open>Data model\<close>

text \<open>
  The grid of \<^verbatim>\<open>floodfill.py\<close> is a Python list of rows, each row a list object of
  cell values (strings). The functions write into the row objects in place
  (\<^verbatim>\<open>grid[row][col] = new_shape\<close>), and one row object may stand at several positions
  of the outer list (as in \<^verbatim>\<open>[row] * 2\<close>), so the model keeps the row objects in a store:
  \<open>rows\<close> is the outer list, one reference per position, and \<open>store\<close> gives the
  content of each row object. The outer list is only read. Coordinates and the counter
  are Python integers. The only exception the three fill functions raise or provoke is
  \<^verbatim>\<open>IndexError\<close>.
\<close>

datatype error = IndexError

type_synonym cell = string
type_synonym rowref = nat
type_synonym coord = "int \<times> int"

record grid =
  rows :: "rowref list"
  store :: "rowref \<Rightarrow> cell list"

text \<open>The grid as nested lists of values, as Python prints it.\<close>

definition cells :: "grid \<Rightarrow> cell list list" where
  "cells g = map (store g) (rows g)"

text \<open>
  \<^verbatim>\<open>xs[i]\<close> and \<^verbatim>\<open>xs[i] = v\<close> on a Python list: a negative index counts from the
  end, an index outside \<open>[-len, len)\<close> raises \<^verbatim>\<open>IndexError\<close> (here \<open>None\<close>).
\<close>

definition py_index :: "'a list \<Rightarrow> int \<Rightarrow> nat option" where
  "py_index xs i =
     (if 0 \<le> i \<and> i < int (length xs) then Some (nat i)
      else if i < 0 \<and> - int (length xs) \<le> i then Some (nat (int (length xs) + i))
      else None)"

definition py_get :: "'a list \<Rightarrow> int \<Rightarrow> 'a option" where
  "py_get xs i = (case py_index xs i of None \<Rightarrow> None | Some j \<Rightarrow> Some (xs ! j))"

definition py_set :: "'a list \<Rightarrow> int \<Rightarrow> 'a \<Rightarrow> 'a list option" where
  "py_set xs i v = (case py_index xs i of None \<Rightarrow> None | Some j \<Rightarrow> Some (xs[j := v]))"

text \<open>
  \<^verbatim>\<open>grid[row][col]\<close> reads the row object that stands at position \<open>row\<close>;
  \<^verbatim>\<open>grid[row][col] = v\<close> writes into that object, so the write shows at every position
  of the outer list that holds the same object.
\<close>

definition grid_get :: "grid \<Rightarrow> int \<Rightarrow> int \<Rightarrow> cell option" where
  "grid_get g row col =
     (case py_get (rows g) row of None \<Rightarrow> None | Some a \<Rightarrow> py_get (store g a) col)"

definition grid_set :: "grid \<Rightarrow> int \<Rightarrow> int \<Rightarrow> cell \<Rightarrow> grid option" where
  "grid_set g row col v =
     (case py_get (rows g) row of
        None \<Rightarrow> None
      | Some a \<Rightarrow>
          (case py_set (store g a) col v of
             None \<Rightarrow> None
           | Some line' \<Rightarrow> Some (g\<lparr>store := (store g)(a := line')\<rparr>)))"

text \<open>
  \<^verbatim>\<open>height = len(grid)\<close>, \<^verbatim>\<open>width = len(grid[0]) if height > 0 else 0\<close>
  (lines 27-28, 103-104, 184-185).
\<close>

definition height_of :: "grid \<Rightarrow> int" where
  "height_of g = int (length (rows g))"

definition width_of :: "grid \<Rightarrow> int" where
  "width_of g = (if height_of g > 0 then int (length (store g (rows g ! 0))) else 0)"

text \<open>The test \<^verbatim>\<open>0 <= r < height and 0 <= c < width\<close>.\<close>

definition in_bounds :: "int \<Rightarrow> int \<Rightarrow> int \<Rightarrow> int \<Rightarrow> bool" where
  "in_bounds height width r c \<longleftrightarrow> 0 \<le> r \<and> r < height \<and> 0 \<le> c \<and> c < width"

text \<open>The two \<^verbatim>\<open>directions\<close> lists, in the source's order (lines 45 and 121-124).\<close>

definition cardinal_directions :: "coord list" where
  "cardinal_directions = [(-1, 0), (1, 0), (0, 1), (0, -1)]"

definition diagonal_directions :: "coord list" where
  "diagonal_directions =
     [(-1, 0), (1, 0), (0, 1), (0, -1), (-1, -1), (-1, 1), (1, -1), (1, 1)]"

text \<open>
  Python truthiness of the optional \<^verbatim>\<open>boundary_shape\<close> argument, as the tests
  \<^verbatim>\<open>boundary_shape and ...\<close> of lines 195 and 235 read it: \<^verbatim>\<open>None\<close> and the empty
  string are false, every other string is true.
\<close>

fun truthy :: "cell option \<Rightarrow> bool" where
  "truthy None = False"
| "truthy (Some s) = (s \<noteq> [])"

section \<open>The breadth-first loop\<close>

text \<open>
  The three \<^verbatim>\<open>while queue:\<close> loops of the source (lines 54-79, 133-158, 211-241)
  are copies of one another up to two points: the \<^verbatim>\<open>directions\<close> list, and the test
  applied to a neighbour before it is enqueued. The model has one loop with these two
  as parameters; \<open>PlainMatch\<close> is the test of \<^verbatim>\<open>perform_flood_fill\<close> and
  \<^verbatim>\<open>flood_fill_diagonal\<close>, \<open>BoundaryAware b\<close> the test of
  \<^verbatim>\<open>flood_fill_with_boundary\<close> called with \<^verbatim>\<open>boundary_shape = b\<close>.
  The animation hook (\<^verbatim>\<open>animate\<close>, default \<^verbatim>\<open>False\<close>) only prints and is left out.
\<close>

datatype neighbor_test = PlainMatch | BoundaryAware "cell option"

text \<open>
  One pass of the body of \<^verbatim>\<open>for dr, dc in directions\<close>: the neighbour is appended to
  the queue and added to \<^verbatim>\<open>visited\<close>, or the state is left as it is. The conjunction
  of the source is short-circuit, so the grid is read only for an in-bounds, unvisited
  neighbour; that read raises on a row shorter than \<^verbatim>\<open>width\<close>.
\<close>

fun visit_neighbor ::
  "neighbor_test \<Rightarrow> int \<Rightarrow> int \<Rightarrow> cell \<Rightarrow> grid \<Rightarrow> int \<Rightarrow> int \<Rightarrow> coord \<Rightarrow>
   coord list \<times> coord set \<Rightarrow> error + coord list \<times> coord set" where
  "visit_neighbor PlainMatch height width original_shape g row col (dr, dc) (queue, visited) =
     (let new_row = row + dr; new_col = col + dc in
      if in_bounds height width new_row new_col \<and> (new_row, new_col) \<notin> visited then
        (case grid_get g new_row new_col of
           None \<Rightarrow> Inl IndexError
         | Some v \<Rightarrow>
             if v = original_shape
             then Inr (queue @ [(new_row, new_col)], insert (new_row, new_col) visited)
             else Inr (queue, visited))
      else Inr (queue, visited))"
| "visit_neighbor (BoundaryAware boundary_shape) height width original_shape g row col (dr, dc)
     (queue, visited) =
     (let new_row = row + dr; new_col = col + dc in
      if in_bounds height width new_row new_col \<and> (new_row, new_col) \<notin> visited then
        (if truthy boundary_shape then
           (case grid_get g new_row new_col of
              None \<Rightarrow> Inl IndexError
            | Some v \<Rightarrow>
                if Some v = boundary_shape then Inr (queue, visited)
                else if v = original_shape
                then Inr (queue @ [(new_row, new_col)], insert (new_row, new_col) visited)
                else Inr (queue, visited))
         else
           (case grid_get g new_row new_col of
              None \<Rightarrow> Inl IndexError
            | Some v \<Rightarrow>
                if v = original_shape
                then Inr (queue @ [(new_row, new_col)], insert (new_row, new_col) visited)
                else Inr (queue, visited)))
      else Inr (queue, visited))"

text \<open>The \<^verbatim>\<open>for\<close> loop over the directions; an exception leaves it at once.\<close>

fun scan_directions ::
  "neighbor_test \<Rightarrow> int \<Rightarrow> int \<Rightarrow> cell \<Rightarrow> grid \<Rightarrow> int \<Rightarrow> int \<Rightarrow> coord list \<Rightarrow>
   coord list \<times> coord set \<Rightarrow> error + coord list \<times> coord set" where
  "scan_directions t height width original_shape g row col [] qv = Inr qv"
| "scan_directions t height width original_shape g row col (d # ds) qv =
     (case visit_neighbor t height width original_shape g row col d qv of
        Inl e \<Rightarrow> Inl e
      | Inr qv' \<Rightarrow> scan_directions t height width original_shape g row col ds qv')"

text \<open>
  The cells of the \<open>height \<times> width\<close> box that are not yet in \<^verbatim>\<open>visited\<close>: what
  bounds the number of \<^verbatim>\<open>queue.append\<close> calls still possible.
\<close>

definition unvisited :: "int \<Rightarrow> int \<Rightarrow> coord set \<Rightarrow> coord set" where
  "unvisited height width visited = ({0..<height} \<times> {0..<width}) - visited"

lemma finite_unvisited: "finite (unvisited height width visited)"
  by (simp add: unvisited_def)

lemma visit_neighbor_cases:
  assumes "visit_neighbor t height width orig g row col d (queue, visited) = Inr (queue', visited')"
  shows "(queue' = queue \<and> visited' = visited) \<or>
         (\<exists>p. queue' = queue @ [p] \<and> visited' = insert p visited \<and>
              p \<in> unvisited height width visited)"
proof (cases d)
  case (Pair dr dc)
  show ?thesis
  proof (cases t)
    case PlainMatch
    with Pair assms show ?thesis
      by (auto simp: Let_def in_bounds_def unvisited_def split: if_splits option.splits)
  next
    case (BoundaryAware b)
    with Pair assms show ?thesis
      by (auto simp: Let_def in_bounds_def unvisited_def split: if_splits option.splits)
  qed
qed

lemma visit_neighbor_measure:
  assumes "visit_neighbor t height width orig g row col d (queue, visited) = Inr (queue', visited')"
  shows "card (unvisited height width visited') + length queue' =
         card (unvisited height width visited) + length queue"
proof -
  from visit_neighbor_cases[OF assms] show ?thesis
  proof
    assume "queue' = queue \<and> visited' = visited"
    then show ?thesis by simp
  next
    assume "\<exists>p. queue' = queue @ [p] \<and> visited' = insert p visited \<and>
                p \<in> unvisited height width visited"
    then obtain p where p: "queue' = queue @ [p]" "visited' = insert p visited"
      "p \<in> unvisited height width visited" by blast
    have eq: "unvisited height width visited' = unvisited height width visited - {p}"
      using p(2) by (auto simp: unvisited_def)
    have "card (unvisited height width visited) > 0"
      using p(3) finite_unvisited[of height width visited] by (auto simp: card_gt_0_iff)
    then show ?thesis
      using p(1,3) eq finite_unvisited[of height width visited] by simp
  qed
qed

lemma scan_directions_measure:
  "scan_directions t height width orig g row col ds (queue, visited) = Inr (queue', visited') \<Longrightarrow>
   card (unvisited height width visited') + length queue' =
   card (unvisited height width visited) + length queue"
proof (induction ds arbitrary: queue visited)
  case Nil
  then show ?case by simp
next
  case (Cons d ds)
  from Cons.prems obtain q1 v1 where
    step: "visit_neighbor t height width orig g row col d (queue, visited) = Inr (q1, v1)" and
    rest: "scan_directions t height width orig g row col ds (q1, v1) = Inr (queue', visited')"
    by (auto split: sum.splits)
  from Cons.IH[OF rest] visit_neighbor_measure[OF step] show ?case by simp
qed

text \<open>
  The \<^verbatim>\<open>while queue:\<close> loop. The state is the grid, the queue, \<^verbatim>\<open>visited\<close> and
  \<^verbatim>\<open>cells_filled\<close>; the result is the grid as the call leaves it (the row objects
  are written in place, also when an exception ends the call) and the exception raised
  or the value returned.
\<close>

function bfs_loop ::
  "neighbor_test \<Rightarrow> coord list \<Rightarrow> int \<Rightarrow> int \<Rightarrow> cell \<Rightarrow> cell \<Rightarrow>
   grid \<Rightarrow> coord list \<Rightarrow> coord set \<Rightarrow> int \<Rightarrow> grid \<times> (error + int)" where
  "bfs_loop t directions height width original_shape new_shape g [] visited cells_filled =
     (g, Inr cells_filled)"
| "bfs_loop t directions height width original_shape new_shape g ((row, col) # queue) visited
     cells_filled =
     (case grid_get g row col of
        None \<Rightarrow> (g, Inl IndexError)
      | Some v \<Rightarrow>
          if v = original_shape then
            (case grid_set g row col new_shape of
               None \<Rightarrow> (g, Inl IndexError)
             | Some g' \<Rightarrow>
                 (case scan_directions t height width original_shape g' row col directions
                         (queue, visited) of
                    Inl e \<Rightarrow> (g', Inl e)
                  | Inr (queue', visited') \<Rightarrow>
                      bfs_loop t directions height width original_shape new_shape g' queue'
                        visited' (cells_filled + 1)))
          else
            bfs_loop t directions height width original_shape new_shape g queue visited
              cells_filled)"
  by pat_completeness auto
termination
proof (relation "measure (\<lambda>(t, directions, height, width, original_shape, new_shape, g, queue,
                  visited, cells_filled). card (unvisited height width visited) + length queue)")
  show "wf (measure (\<lambda>(t, directions, height, width, original_shape, new_shape, g, queue,
                  visited, cells_filled). card (unvisited height width visited) + length queue))"
    by simp
next
  fix t :: neighbor_test and directions :: "coord list" and height width :: int
    and original_shape new_shape :: cell and g :: grid and row col :: int
    and queue :: "coord list" and visited :: "coord set" and cells_filled :: int
    and x2 :: cell and x2a :: grid and x2b :: "coord list \<times> coord set"
    and x y
  assume "scan_directions t height width original_shape x2a row col directions (queue, visited) = Inr x2b"
    and "(x, y) = x2b"
  then have "card (unvisited height width y) + length x =
             card (unvisited height width visited) + length queue"
    using scan_directions_measure[of t height width original_shape x2a row col directions
        queue visited x y] by simp
  then show "((t, directions, height, width, original_shape, new_shape, x2a, x, y, cells_filled + 1),
              (t, directions, height, width, original_shape, new_shape, g, (row, col) # queue,
               visited, cells_filled)) \<in> measure (\<lambda>(t, directions, height, width, original_shape,
               new_shape, g, queue, visited, cells_filled).
               card (unvisited height width visited) + length queue)"
    by simp
next
  fix t :: neighbor_test and directions :: "coord list" and height width :: int
    and original_shape new_shape :: cell and g :: grid and row col :: int
    and queue :: "coord list" and visited :: "coord set" and cells_filled :: int
  show "((t, directions, height, width, original_shape, new_shape, g, queue, visited, cells_filled),
         (t, directions, height, width, original_shape, new_shape, g, (row, col) # queue, visited,
          cells_filled)) \<in> measure (\<lambda>(t, directions, height, width, original_shape,
               new_shape, g, queue, visited, cells_filled).
               card (unvisited height width visited) + length queue)"
    by simp
qed

section \<open>The three fill functions\<close>

text \<open>
  Each function returns the grid as the call leaves it together with the integer
  returned (\<open>Inr\<close>) or the exception raised (\<open>Inl\<close>).
  \<^verbatim>\<open>perform_flood_fill\<close>, lines 26-81.
\<close>

definition perform_flood_fill :: "grid \<Rightarrow> int \<Rightarrow> int \<Rightarrow> cell \<Rightarrow> grid \<times> (error + int)" where
  "perform_flood_fill g start_row start_col new_shape =
     (let height = height_of g; width = width_of g in
      if \<not> in_bounds height width start_row start_col then (g, Inl IndexError)
      else
        (case grid_get g start_row start_col of
           None \<Rightarrow> (g, Inl IndexError)
         | Some original_shape \<Rightarrow>
             if original_shape = new_shape then (g, Inr 0)
             else bfs_loop PlainMatch cardinal_directions height width original_shape new_shape
                    g [(start_row, start_col)] {(start_row, start_col)} 0))"

text \<open>\<^verbatim>\<open>flood_fill_diagonal\<close>, lines 102-160.\<close>

definition flood_fill_diagonal :: "grid \<Rightarrow> int \<Rightarrow> int \<Rightarrow> cell \<Rightarrow> grid \<times> (error + int)" where
  "flood_fill_diagonal g start_row start_col new_shape =
     (let height = height_of g; width = width_of g in
      if \<not> in_bounds height width start_row start_col then (g, Inl IndexError)
      else
        (case grid_get g start_row start_col of
           None \<Rightarrow> (g, Inl IndexError)
         | Some original_shape \<Rightarrow>
             if original_shape = new_shape then (g, Inr 0)
             else bfs_loop PlainMatch diagonal_directions height width original_shape new_shape
                    g [(start_row, start_col)] {(start_row, start_col)} 0))"

text \<open>
  \<^verbatim>\<open>flood_fill_with_boundary\<close>, lines 183-243; \<open>boundary_shape\<close> is \<open>None\<close> for
  Python's \<^verbatim>\<open>None\<close> (the default).
\<close>

definition flood_fill_with_boundary ::
  "grid \<Rightarrow> int \<Rightarrow> int \<Rightarrow> cell \<Rightarrow> cell option \<Rightarrow> grid \<times> (error + int)" where
  "flood_fill_with_boundary g start_row start_col new_shape boundary_shape =
     (let height = height_of g; width = width_of g in
      if \<not> in_bounds height width start_row start_col then (g, Inl IndexError)
      else
        (case grid_get g start_row start_col of
           None \<Rightarrow> (g, Inl IndexError)
         | Some original_shape \<Rightarrow>
             if original_shape = new_shape \<or>
                (truthy boundary_shape \<and> Some original_shape = boundary_shape)
             then (g, Inr 0)
             else bfs_loop (BoundaryAware boundary_shape) cardinal_directions height width
                    original_shape new_shape g [(start_row, start_col)]
                    {(start_row, start_col)} 0))"

section \<open>Notions of the specification\<close>

text \<open>A rectangular grid: every row is as long as the first.\<close>

definition rectangular :: "grid \<Rightarrow> bool" where
  "rectangular g \<longleftrightarrow> (\<forall>a \<in> set (rows g). int (length (store g a)) = width_of g)"

text \<open>
  The rows of the grid are pairwise distinct objects: no row object stands at two
  positions of the outer list. The grids \<^verbatim>\<open>main.py\<close> builds
  (\<^verbatim>\<open>custom_grid.append(list(row))\<close>) are of this kind.
\<close>

definition unshared :: "grid \<Rightarrow> bool" where
  "unshared g \<longleftrightarrow> distinct (rows g)"

text \<open>
  The connected component of the seed: the cells reached from the seed by steps of the
  adjacency relation, each step landing on an in-bounds cell that holds the value the
  grid has at the seed.
\<close>

inductive_set component :: "coord list \<Rightarrow> grid \<Rightarrow> coord \<Rightarrow> coord set"
  for directions :: "coord list" and g :: grid and seed :: coord where
  seed: "in_bounds (height_of g) (width_of g) (fst seed) (snd seed) \<Longrightarrow>
         seed \<in> component directions g seed"
| step: "p \<in> component directions g seed \<Longrightarrow> (dr, dc) \<in> set directions \<Longrightarrow>
         in_bounds (height_of g) (width_of g) (fst p + dr) (snd p + dc) \<Longrightarrow>
         grid_get g (fst p + dr) (snd p + dc) = grid_get g (fst seed) (snd seed) \<Longrightarrow>
         (fst p + dr, snd p + dc) \<in> component directions g seed"

text \<open>The cells whose value differs between two grids of the same extent.\<close>

definition changed_cells :: "grid \<Rightarrow> grid \<Rightarrow> coord set" where
  "changed_cells g g' =
     {(r, c). in_bounds (height_of g) (width_of g) r c \<and> grid_get g' r c \<noteq> grid_get g r c}"

text \<open>The cells that hold the boundary value, when one is given.\<close>

definition boundary_cells :: "grid \<Rightarrow> cell option \<Rightarrow> coord set" where
  "boundary_cells g boundary_shape =
     {(r, c). boundary_shape \<noteq> None \<and> grid_get g r c = boundary_shape}"

text \<open>
  A grid whose rows are fresh objects, one per row of the given nested list, and the
  store that holds nothing else.
\<close>

definition fresh_grid :: "cell list list \<Rightarrow> grid" where
  "fresh_grid xss =
     \<lparr>rows = [0..<length xss], store = (\<lambda>a. if a < length xss then xss ! a else [])\<rparr>"

section \<open>Evaluation and the unset boundary\<close>

lemmas eval_defs = height_of_def width_of_def in_bounds_def grid_get_def grid_set_def
  py_get_def py_set_def py_index_def cardinal_directions_def diagonal_directions_def
  cells_def fresh_grid_def upt_rec

text \<open>
  When the boundary is unset, or falsy, or differs from the seed's value, the neighbour
  test of \<^verbatim>\<open>flood_fill_with_boundary\<close> enqueues exactly what the plain test does:
  a neighbour that is enqueued holds the seed's value, hence not the boundary value.
\<close>

lemma visit_neighbor_unset:
  "\<not> (truthy b \<and> b = Some orig) \<Longrightarrow>
   visit_neighbor (BoundaryAware b) height width orig g row col d qv =
   visit_neighbor PlainMatch height width orig g row col d qv"
  by (cases d; cases qv) (auto simp: Let_def split: option.splits)

lemma scan_directions_unset:
  assumes "\<not> (truthy b \<and> b = Some orig)"
  shows "scan_directions (BoundaryAware b) height width orig g row col ds qv =
         scan_directions PlainMatch height width orig g row col ds qv"
proof (induction ds arbitrary: qv)
  case Nil
  show ?case by simp
next
  case (Cons d ds)
  show ?case
    by (simp add: visit_neighbor_unset[OF assms] Cons.IH cong: sum.case_cong)
qed

lemma bfs_loop_unset:
  "\<not> (truthy b \<and> b = Some orig) \<Longrightarrow>
   bfs_loop (BoundaryAware b) ds height width orig new g queue visited n =
   bfs_loop PlainMatch ds height width orig new g queue visited n"
proof (induction PlainMatch ds height width orig new g queue visited n rule: bfs_loop.induct)
  case (1 directions height width original_shape new_shape g visited cells_filled)
  show ?case by simp
next
  case (2 directions height width original_shape new_shape g row col queue visited cells_filled)
  note unset = scan_directions_unset[OF "2.prems"]
  show ?case
  proof (cases "grid_get g row col")
    case None
    then show ?thesis by simp
  next
    case (Some v)
    show ?thesis
    proof (cases "v = original_shape")
      case False
      with Some "2.hyps"(2)[OF Some False "2.prems"] show ?thesis by simp
    next
      case True
      show ?thesis
      proof (cases "grid_set g row col new_shape")
        case None
        with Some True show ?thesis by simp
      next
        case g': (Some g')
        show ?thesis
        proof (cases "scan_directions PlainMatch height width original_shape g' row col
                        directions (queue, visited)")
          case (Inl e)
          with Some True g' show ?thesis
            by (simp add: unset)
        next
          case (Inr qv)
          obtain q' v' where qv: "qv = (q', v')" by (cases qv)
          from "2.hyps"(1)[OF Some True g' Inr qv[symmetric] "2.prems"] Some True g' Inr qv
          show ?thesis
            by (simp add: unset)
        qed
      qed
    qed
  qed
qed

lemma flood_fill_with_boundary_plain:
  assumes "\<not> (truthy b \<and> b = grid_get g sr sc)"
  shows "flood_fill_with_boundary g sr sc new b = perform_flood_fill g sr sc new"
proof (cases "grid_get g sr sc")
  case None
  then show ?thesis
    by (simp add: flood_fill_with_boundary_def perform_flood_fill_def Let_def)
next
  case (Some orig)
  with assms have "\<not> (truthy b \<and> b = Some orig)" by simp
  from bfs_loop_unset[OF this] Some assms show ?thesis
    by (auto simp add: flood_fill_with_boundary_def perform_flood_fill_def Let_def
        simp del: bfs_loop.simps)
qed


text \<open>
  C9. \<^verbatim>\<open>flood_fill_with_boundary\<close> called with \<^verbatim>\<open>boundary_shape=None\<close> leaves the same
  grid and gives the same outcome (count or exception) as \<^verbatim>\<open>perform_flood_fill\<close> on the
  same grid, seed and replacement value, for every grid.
\<close>

theorem boundary_unset_is_plain:
  "flood_fill_with_boundary g start_row start_col new_shape None =
   perform_flood_fill g start_row start_col new_shape"
  by (rule flood_fill_with_boundary_plain) simp

theorem boundary_unset_is_plain_witness:
  "cells (fst (flood_fill_with_boundary
                 (fresh_grid [[''-'', ''X''], [''X'', ''-'']]) 0 0 ''O'' None)) =
     [[''O'', ''X''], [''X'', ''-'']] \<and>
   snd (flood_fill_with_boundary (fresh_grid [[''-'', ''X''], [''X'', ''-'']]) 0 0 ''O'' None) =
     Inr 1"
  unfolding boundary_unset_is_plain [of "fresh_grid [[''-'', ''X''], [''X'', ''-'']]" 0 0 "''O''"]
  by (simp add: perform_flood_fill_def eval_defs)

section \<open>Validation and the early returns\<close>

text \<open>
  C5. For every grid and every seed outside \<open>[0, height) \<times> [0, width)\<close>, each of the
  three functions raises \<^verbatim>\<open>IndexError\<close> and the grid is the one it was given.
\<close>

theorem seed_out_of_bounds:
  assumes "\<not> in_bounds (height_of g) (width_of g) start_row start_col"
  shows "perform_flood_fill g start_row start_col new_shape = (g, Inl IndexError) \<and>
         flood_fill_diagonal g start_row start_col new_shape = (g, Inl IndexError) \<and>
         flood_fill_with_boundary g start_row start_col new_shape boundary_shape =
           (g, Inl IndexError)"
  using assms
  by (simp add: perform_flood_fill_def flood_fill_diagonal_def flood_fill_with_boundary_def)

theorem seed_out_of_bounds_witness:
  "perform_flood_fill
     (fresh_grid [[''-'', ''-'', ''-''], [''-'', ''-'', ''-''], [''-'', ''-'', ''-'']]) 5 5 ''X'' =
     (fresh_grid [[''-'', ''-'', ''-''], [''-'', ''-'', ''-''], [''-'', ''-'', ''-'']], Inl IndexError) \<and>
   flood_fill_diagonal
     (fresh_grid [[''-'', ''-'', ''-''], [''-'', ''-'', ''-''], [''-'', ''-'', ''-'']]) 5 5 ''X'' =
     (fresh_grid [[''-'', ''-'', ''-''], [''-'', ''-'', ''-''], [''-'', ''-'', ''-'']], Inl IndexError) \<and>
   flood_fill_with_boundary
     (fresh_grid [[''-'', ''-'', ''-''], [''-'', ''-'', ''-''], [''-'', ''-'', ''-'']]) 5 5 ''X''
     (Some ''#'') =
     (fresh_grid [[''-'', ''-'', ''-''], [''-'', ''-'', ''-''], [''-'', ''-'', ''-'']], Inl IndexError)"
  by (rule seed_out_of_bounds) (simp add: eval_defs)

text \<open>
  C6. For an in-bounds seed whose cell already holds the replacement value, each of the
  three functions returns 0 and the grid is the one it was given. (The grid need not be
  rectangular: it is enough that the seed's cell can be read.)
\<close>

theorem already_filled_noop:
  assumes "in_bounds (height_of g) (width_of g) start_row start_col"
    and "grid_get g start_row start_col = Some new_shape"
  shows "perform_flood_fill g start_row start_col new_shape = (g, Inr 0) \<and>
         flood_fill_diagonal g start_row start_col new_shape = (g, Inr 0) \<and>
         flood_fill_with_boundary g start_row start_col new_shape boundary_shape = (g, Inr 0)"
  using assms
  by (simp add: perform_flood_fill_def flood_fill_diagonal_def flood_fill_with_boundary_def)

theorem already_filled_noop_witness:
  "perform_flood_fill (fresh_grid [[''X'']]) 0 0 ''X'' = (fresh_grid [[''X'']], Inr 0) \<and>
   flood_fill_diagonal (fresh_grid [[''X'']]) 0 0 ''X'' = (fresh_grid [[''X'']], Inr 0) \<and>
   flood_fill_with_boundary (fresh_grid [[''X'']]) 0 0 ''X'' (Some ''#'') =
     (fresh_grid [[''X'']], Inr 0)"
  by (rule already_filled_noop) (simp_all add: eval_defs)

text \<open>
  C10. On the empty grid every call of each function raises \<^verbatim>\<open>IndexError\<close>,
  whatever the seed; so does every call on a grid whose first row is empty. The grid is
  left as it was.
\<close>

theorem empty_grid_raises:
  "perform_flood_fill \<lparr>rows = [], store = st\<rparr> r c new_shape =
     (\<lparr>rows = [], store = st\<rparr>, Inl IndexError) \<and>
   flood_fill_diagonal \<lparr>rows = [], store = st\<rparr> r c new_shape =
     (\<lparr>rows = [], store = st\<rparr>, Inl IndexError) \<and>
   flood_fill_with_boundary \<lparr>rows = [], store = st\<rparr> r c new_shape boundary_shape =
     (\<lparr>rows = [], store = st\<rparr>, Inl IndexError) \<and>
   perform_flood_fill \<lparr>rows = a # refs, store = st(a := [])\<rparr> r c new_shape =
     (\<lparr>rows = a # refs, store = st(a := [])\<rparr>, Inl IndexError) \<and>
   flood_fill_diagonal \<lparr>rows = a # refs, store = st(a := [])\<rparr> r c new_shape =
     (\<lparr>rows = a # refs, store = st(a := [])\<rparr>, Inl IndexError) \<and>
   flood_fill_with_boundary \<lparr>rows = a # refs, store = st(a := [])\<rparr> r c new_shape
     boundary_shape =
     (\<lparr>rows = a # refs, store = st(a := [])\<rparr>, Inl IndexError)"
  by (simp add: perform_flood_fill_def flood_fill_diagonal_def flood_fill_with_boundary_def
      height_of_def width_of_def in_bounds_def)

section \<open>Grids of a fixed extent\<close>

text \<open>
  A grid with \<open>height\<close> rows of \<open>width\<close> cells each. On such a grid every in-bounds
  read and write succeeds. A write leaves the extent as it is and changes the written
  cell at every position that holds the written row object; when no row object is
  shared, that is the one cell it names.
\<close>

definition shaped :: "int \<Rightarrow> int \<Rightarrow> grid \<Rightarrow> bool" where
  "shaped height width g \<longleftrightarrow>
     height_of g = height \<and> (\<forall>a \<in> set (rows g). int (length (store g a)) = width)"

definition same_extent :: "grid \<Rightarrow> grid \<Rightarrow> bool" where
  "same_extent g' g \<longleftrightarrow>
     rows g' = rows g \<and> (\<forall>a. length (store g' a) = length (store g a))"

definition write_cell :: "grid \<Rightarrow> int \<Rightarrow> int \<Rightarrow> cell \<Rightarrow> grid" where
  "write_cell g r c v =
     g\<lparr>store := (store g)(rows g ! nat r := (store g (rows g ! nat r))[nat c := v])\<rparr>"

lemma rectangular_shaped: "rectangular g \<Longrightarrow> shaped (height_of g) (width_of g) g"
  by (simp add: rectangular_def shaped_def)

lemma same_extent_refl: "same_extent g g"
  by (simp add: same_extent_def)

lemma same_extent_trans: "same_extent g'' g' \<Longrightarrow> same_extent g' g \<Longrightarrow> same_extent g'' g"
  by (simp add: same_extent_def)

lemma shaped_same_extent:
  "shaped height width g \<Longrightarrow> same_extent g' g \<Longrightarrow> shaped height width g'"
  by (simp add: shaped_def same_extent_def height_of_def)

lemma same_extent_dims:
  "same_extent g' g \<Longrightarrow> height_of g' = height_of g \<and> width_of g' = width_of g"
  by (simp add: same_extent_def height_of_def width_of_def)

lemma same_extent_cells:
  "same_extent g' g \<Longrightarrow> map length (cells g') = map length (cells g)"
  by (simp add: same_extent_def cells_def)

lemma shaped_row:
  assumes "shaped height width g" "in_bounds height width r c"
  shows "nat r < length (rows g)" and "int (length (store g (rows g ! nat r))) = width"
proof -
  from assms show r: "nat r < length (rows g)"
    by (auto simp: shaped_def in_bounds_def height_of_def)
  then have "rows g ! nat r \<in> set (rows g)" by simp
  with assms(1) show "int (length (store g (rows g ! nat r))) = width"
    by (simp add: shaped_def)
qed

lemma grid_get_in:
  assumes "shaped height width g" "in_bounds height width r c"
  shows "grid_get g r c = Some (store g (rows g ! nat r) ! nat c)"
  using shaped_row[OF assms] assms(2)
  by (simp add: grid_get_def py_get_def py_index_def in_bounds_def)

lemma grid_set_in:
  assumes "shaped height width g" "in_bounds height width r c"
  shows "grid_set g r c v = Some (write_cell g r c v)"
  using shaped_row[OF assms] assms(2)
  by (simp add: grid_set_def write_cell_def py_get_def py_set_def py_index_def in_bounds_def)

lemma write_cell_extent: "same_extent (write_cell g r c v) g"
  by (simp add: same_extent_def write_cell_def)

lemma grid_get_after_set_shared:
  assumes sh: "shaped height width g" and p: "in_bounds height width r c"
    and q: "in_bounds height width r' c'"
  shows "grid_get (write_cell g r c v) r' c' =
         (if rows g ! nat r' = rows g ! nat r \<and> c' = c then Some v else grid_get g r' c')"
proof -
  have sh': "shaped height width (write_cell g r c v)"
    by (rule shaped_same_extent[OF sh write_cell_extent])
  from shaped_row[OF sh p] p have c: "nat c < length (store g (rows g ! nat r))" "0 \<le> c"
    by (auto simp: in_bounds_def)
  from q have c': "0 \<le> c'" by (simp add: in_bounds_def)
  show ?thesis
    unfolding grid_get_in[OF sh' q] grid_get_in[OF sh q]
    using c c' by (auto simp: write_cell_def nth_list_update)
qed

lemma grid_get_after_set:
  assumes sh: "shaped height width g" and d: "distinct (rows g)"
    and p: "in_bounds height width r c" and q: "in_bounds height width r' c'"
  shows "grid_get (write_cell g r c v) r' c' =
         (if r' = r \<and> c' = c then Some v else grid_get g r' c')"
proof -
  from shaped_row(1)[OF sh p] shaped_row(1)[OF sh q] d
  have "rows g ! nat r' = rows g ! nat r \<longleftrightarrow> nat r' = nat r"
    by (simp add: nth_eq_iff_index_eq)
  moreover from p q have "nat r' = nat r \<longleftrightarrow> r' = r" by (auto simp: in_bounds_def)
  ultimately show ?thesis
    unfolding grid_get_after_set_shared[OF sh p q] by simp
qed

section \<open>One pass over the directions\<close>

text \<open>
  The in-bounds neighbours of \<open>(row, col)\<close> along the given directions that hold the
  original value. On a grid of the right extent the \<^verbatim>\<open>for\<close> loop never raises, and appends
  to the queue exactly those of them that are not yet visited, each once.
\<close>

definition matching_neighbors ::
  "int \<Rightarrow> int \<Rightarrow> cell \<Rightarrow> grid \<Rightarrow> int \<Rightarrow> int \<Rightarrow> coord list \<Rightarrow> coord set" where
  "matching_neighbors height width orig g row col ds =
     {(row + dr, col + dc) | dr dc. (dr, dc) \<in> set ds \<and>
        in_bounds height width (row + dr) (col + dc) \<and>
        grid_get g (row + dr) (col + dc) = Some orig}"

lemma matching_neighbors_Nil: "matching_neighbors height width orig g row col [] = {}"
  by (simp add: matching_neighbors_def)

lemma matching_neighbors_Cons:
  "matching_neighbors height width orig g row col ((dr, dc) # ds) =
     (if in_bounds height width (row + dr) (col + dc) \<and>
         grid_get g (row + dr) (col + dc) = Some orig
      then insert (row + dr, col + dc) (matching_neighbors height width orig g row col ds)
      else matching_neighbors height width orig g row col ds)"
  by (auto simp: matching_neighbors_def)

lemma visit_neighbor_plain:
  assumes "shaped height width g"
  shows "visit_neighbor PlainMatch height width orig g row col (dr, dc) (queue, visited) =
         Inr (if in_bounds height width (row + dr) (col + dc) \<and>
                 (row + dr, col + dc) \<notin> visited \<and>
                 grid_get g (row + dr) (col + dc) = Some orig
              then (queue @ [(row + dr, col + dc)], insert (row + dr, col + dc) visited)
              else (queue, visited))"
  using grid_get_in[OF assms, of "row + dr" "col + dc"]
  by (auto simp: Let_def)

lemma visit_neighbor_accept:
  assumes "shaped height width g"
    and "in_bounds height width (row + dr) (col + dc)"
    and "(row + dr, col + dc) \<notin> visited"
    and "grid_get g (row + dr) (col + dc) = Some orig"
  shows "visit_neighbor PlainMatch height width orig g row col (dr, dc) (queue, visited) =
         Inr (queue @ [(row + dr, col + dc)], insert (row + dr, col + dc) visited)"
  using assms(2-4) unfolding visit_neighbor_plain[OF assms(1)] by simp

lemma visit_neighbor_reject:
  assumes "shaped height width g"
    and "\<not> (in_bounds height width (row + dr) (col + dc) \<and>
            (row + dr, col + dc) \<notin> visited \<and>
            grid_get g (row + dr) (col + dc) = Some orig)"
  shows "visit_neighbor PlainMatch height width orig g row col (dr, dc) (queue, visited) =
         Inr (queue, visited)"
  using assms(2) unfolding visit_neighbor_plain[OF assms(1)] by simp

lemma scan_directions_plain:
  assumes "shaped height width g"
  shows "\<exists>fresh. scan_directions PlainMatch height width orig g row col ds (queue, visited) =
           Inr (queue @ fresh, visited \<union> set fresh) \<and> distinct fresh \<and>
           set fresh = matching_neighbors height width orig g row col ds - visited"
proof (induction ds arbitrary: queue visited)
  case Nil
  show ?case by (simp add: matching_neighbors_Nil)
next
  case (Cons d ds)
  obtain dr dc where d: "d = (dr, dc)" by (cases d)
  let ?p = "(row + dr, col + dc)"
  let ?N = "matching_neighbors height width orig g row col ds"
  show ?case
  proof (cases "in_bounds height width (row + dr) (col + dc) \<and> ?p \<notin> visited \<and>
                grid_get g (row + dr) (col + dc) = Some orig")
    case True
    from Cons.IH[of "queue @ [?p]" "insert ?p visited"] obtain fresh where
      f: "scan_directions PlainMatch height width orig g row col ds
            (queue @ [?p], insert ?p visited) =
          Inr ((queue @ [?p]) @ fresh, insert ?p visited \<union> set fresh)"
        "distinct fresh" "set fresh = ?N - insert ?p visited"
      by blast
    have "scan_directions PlainMatch height width orig g row col (d # ds) (queue, visited) =
          Inr (queue @ (?p # fresh), visited \<union> set (?p # fresh))"
      using True f(1) by (simp add: d visit_neighbor_accept[OF assms] del: visit_neighbor.simps)
    moreover have "distinct (?p # fresh)" using f(2,3) by auto
    moreover have "set (?p # fresh) =
        matching_neighbors height width orig g row col (d # ds) - visited"
      using True f(3) by (auto simp: d matching_neighbors_Cons)
    ultimately show ?thesis by blast
  next
    case False
    from Cons.IH[of queue visited] obtain fresh where
      f: "scan_directions PlainMatch height width orig g row col ds (queue, visited) =
          Inr (queue @ fresh, visited \<union> set fresh)"
        "distinct fresh" "set fresh = ?N - visited"
      by blast
    have "scan_directions PlainMatch height width orig g row col (d # ds) (queue, visited) =
          Inr (queue @ fresh, visited \<union> set fresh)"
      using f(1) by (simp add: d visit_neighbor_reject[OF assms False] del: visit_neighbor.simps)
    moreover have "set fresh = matching_neighbors height width orig g row col (d # ds) - visited"
      using False f(3) by (auto simp: d matching_neighbors_Cons)
    ultimately show ?thesis using f(2) by blast
  qed
qed

section \<open>The connected component\<close>

lemma component_in_bounds:
  "p \<in> component ds g seed \<Longrightarrow> in_bounds (height_of g) (width_of g) (fst p) (snd p)"
  by (induction rule: component.induct) simp_all

lemma component_value:
  "p \<in> component ds g seed \<Longrightarrow> grid_get g (fst p) (snd p) = grid_get g (fst seed) (snd seed)"
  by (induction rule: component.induct) simp_all

lemma component_subset_box:
  "component ds g seed \<subseteq> {0..<height_of g} \<times> {0..<width_of g}"
proof
  fix p assume "p \<in> component ds g seed"
  from component_in_bounds[OF this] show "p \<in> {0..<height_of g} \<times> {0..<width_of g}"
    by (cases p) (simp add: in_bounds_def)
qed

lemma finite_component: "finite (component ds g seed)"
  by (rule finite_subset[OF component_subset_box]) simp

lemma component_mono:
  assumes "set ds \<subseteq> set ds'"
  shows "component ds g seed \<subseteq> component ds' g seed"
proof
  fix p assume "p \<in> component ds g seed"
  then show "p \<in> component ds' g seed"
  proof (induction rule: component.induct)
    case seed
    then show ?case by (rule component.seed)
  next
    case (step p dr dc)
    from step.hyps(2) assms have "(dr, dc) \<in> set ds'" by blast
    from component.step[OF step.IH this step.hyps(3,4)] show ?case .
  qed
qed

section \<open>The loop invariant\<close>

text \<open>
  At the head of the \<^verbatim>\<open>while\<close> loop, for the grid \<open>g0\<close> the call was given, with
  rows that are distinct objects: the grid has kept its extent; every visited cell belongs to the seed's component; the queue holds
  visited cells without repetition; the cells already dequeued (visited and no longer
  queued) hold the new value and every other cell its value in \<open>g0\<close>; every matching
  neighbour of a dequeued cell has been visited; and \<^verbatim>\<open>cells_filled\<close> counts the
  dequeued cells.
\<close>

definition bfs_inv ::
  "coord list \<Rightarrow> grid \<Rightarrow> coord \<Rightarrow> cell \<Rightarrow> cell \<Rightarrow> grid \<Rightarrow> coord list \<Rightarrow> coord set \<Rightarrow> int \<Rightarrow> bool"
  where
  "bfs_inv ds g0 seed orig new g queue visited n \<longleftrightarrow>
     same_extent g g0 \<and>
     seed \<in> visited \<and> visited \<subseteq> component ds g0 seed \<and>
     distinct queue \<and> set queue \<subseteq> visited \<and>
     (\<forall>r c. in_bounds (height_of g0) (width_of g0) r c \<longrightarrow>
        grid_get g r c =
          (if (r, c) \<in> visited - set queue then Some new else grid_get g0 r c)) \<and>
     (\<forall>p \<in> visited - set queue.
        matching_neighbors (height_of g0) (width_of g0) orig g0 (fst p) (snd p) ds
          \<subseteq> visited) \<and>
     n = int (card (visited - set queue))"

lemma bfs_inv_init:
  assumes "in_bounds (height_of g0) (width_of g0) (fst seed) (snd seed)"
  shows "bfs_inv ds g0 seed orig new g0 [seed] {seed} 0"
  using component.seed[OF assms, of ds] by (simp add: bfs_inv_def same_extent_refl)

lemma bfs_inv_step:
  assumes rect: "rectangular g0"
    and unsh: "distinct (rows g0)"
    and orig: "grid_get g0 (fst seed) (snd seed) = Some orig"
    and neq: "orig \<noteq> new"
    and inv: "bfs_inv ds g0 seed orig new g ((row, col) # queue) visited n"
  shows "grid_get g row col = Some orig \<and>
         (\<exists>g' queue' visited'.
            grid_set g row col new = Some g' \<and>
            scan_directions PlainMatch (height_of g0) (width_of g0) orig g' row col ds
              (queue, visited) = Inr (queue', visited') \<and>
            bfs_inv ds g0 seed orig new g' queue' visited' (n + 1))"
proof -
  let ?h = "height_of g0" and ?w = "width_of g0"
  let ?C = "component ds g0 seed"
  let ?p = "(row, col)"
  from inv have len: "same_extent g g0"
    and seed: "seed \<in> visited" and sub: "visited \<subseteq> ?C"
    and dist: "distinct (?p # queue)" and qsub: "set (?p # queue) \<subseteq> visited"
    and cells: "\<And>r c. in_bounds ?h ?w r c \<Longrightarrow>
        grid_get g r c =
          (if (r, c) \<in> visited - set (?p # queue) then Some new else grid_get g0 r c)"
    and closed: "\<And>x. x \<in> visited - set (?p # queue) \<Longrightarrow>
        matching_neighbors ?h ?w orig g0 (fst x) (snd x) ds \<subseteq> visited"
    and n: "n = int (card (visited - set (?p # queue)))"
    by (simp_all add: bfs_inv_def)
  have sh: "shaped ?h ?w g"
    by (rule shaped_same_extent[OF rectangular_shaped[OF rect] len])
  from len unsh have dg: "distinct (rows g)" by (simp add: same_extent_def)
  from qsub sub have pC: "?p \<in> ?C" by auto
  from component_in_bounds[OF pC] have pin: "in_bounds ?h ?w row col" by simp
  from component_value[OF pC] orig have pval0: "grid_get g0 row col = Some orig" by simp
  from cells[OF pin] pval0 have pval: "grid_get g row col = Some orig" by simp
  let ?g' = "write_cell g row col new"
  have set: "grid_set g row col new = Some ?g'" by (rule grid_set_in[OF sh pin])
  have len': "same_extent ?g' g0" by (rule same_extent_trans[OF write_cell_extent len])
  have sh': "shaped ?h ?w ?g'"
    by (rule shaped_same_extent[OF rectangular_shaped[OF rect] len'])
  have get': "\<And>r c. in_bounds ?h ?w r c \<Longrightarrow>
      grid_get ?g' r c = (if r = row \<and> c = col then Some new else grid_get g r c)"
    by (rule grid_get_after_set[OF sh dg pin])
  from scan_directions_plain[OF sh', of orig row col ds queue visited] obtain fresh where
    scan: "scan_directions PlainMatch ?h ?w orig ?g' row col ds (queue, visited) =
             Inr (queue @ fresh, visited \<union> set fresh)"
    and fdist: "distinct fresh"
    and fset: "set fresh = matching_neighbors ?h ?w orig ?g' row col ds - visited"
    by blast
  let ?q' = "queue @ fresh" and ?v' = "visited \<union> set fresh"
  from dist have pq: "?p \<notin> set queue" and qdist: "distinct queue" by simp_all
  from qsub have pv: "?p \<in> visited" and qv: "set queue \<subseteq> visited" by simp_all
  have done': "?v' - set ?q' = insert ?p (visited - set (?p # queue))"
    using fset pq pv by auto
  have fin: "finite visited" by (rule finite_subset[OF sub finite_component])
  \<comment> \<open>a fresh cell holds the original value in the grid the call was given\<close>
  have fresh0: "x \<in> matching_neighbors ?h ?w orig g0 row col ds" if "x \<in> set fresh" for x
  proof -
    from that fset obtain dr dc where x: "x = (row + dr, col + dc)" "(dr, dc) \<in> set ds"
      "in_bounds ?h ?w (row + dr) (col + dc)"
      "grid_get ?g' (row + dr) (col + dc) = Some orig" "x \<notin> visited"
      by (auto simp: matching_neighbors_def)
    from x(4) get'[OF x(3)] neq have ne: "\<not> (row + dr = row \<and> col + dc = col)"
      and v: "grid_get g (row + dr) (col + dc) = Some orig"
      by (auto split: if_splits)
    from v cells[OF x(3)] x(1,5) have "grid_get g0 (row + dr) (col + dc) = Some orig"
      by (auto split: if_splits)
    with x(1,2,3) show ?thesis by (auto simp: matching_neighbors_def)
  qed
  have sub': "?v' \<subseteq> ?C"
  proof -
    have "x \<in> ?C" if "x \<in> set fresh" for x
    proof -
      from fresh0[OF that] obtain dr dc where x: "x = (row + dr, col + dc)"
        "(dr, dc) \<in> set ds" "in_bounds ?h ?w (row + dr) (col + dc)"
        "grid_get g0 (row + dr) (col + dc) = Some orig"
        by (auto simp: matching_neighbors_def)
      from component.step[OF pC x(2)] x(1,3,4) orig show ?thesis by simp
    qed
    with sub show ?thesis by auto
  qed
  have cells': "grid_get ?g' r c =
      (if (r, c) \<in> ?v' - set ?q' then Some new else grid_get g0 r c)"
    if rc: "in_bounds ?h ?w r c" for r c
    unfolding done' using get'[OF rc] cells[OF rc] by auto
  have closed': "matching_neighbors ?h ?w orig g0 (fst x) (snd x) ds \<subseteq> ?v'"
    if x: "x \<in> ?v' - set ?q'" for x
  proof (cases "x = ?p")
    case False
    with x done' have "x \<in> visited - set (?p # queue)" by auto
    from closed[OF this] show ?thesis by auto
  next
    case True
    show ?thesis
    proof
      fix y assume y: "y \<in> matching_neighbors ?h ?w orig g0 (fst x) (snd x) ds"
      show "y \<in> ?v'"
      proof (cases "y \<in> visited")
        case True
        then show ?thesis by simp
      next
        case False
        from y True obtain dr dc where yd: "y = (row + dr, col + dc)" "(dr, dc) \<in> set ds"
          "in_bounds ?h ?w (row + dr) (col + dc)"
          "grid_get g0 (row + dr) (col + dc) = Some orig"
          by (auto simp: matching_neighbors_def)
        from False pv yd(1) have ne: "\<not> (row + dr = row \<and> col + dc = col)" by auto
        from cells[OF yd(3)] False yd(1,4) have "grid_get g (row + dr) (col + dc) = Some orig"
          by auto
        with get'[OF yd(3)] ne have "grid_get ?g' (row + dr) (col + dc) = Some orig" by auto
        with yd(1,2,3) have "y \<in> matching_neighbors ?h ?w orig ?g' row col ds"
          by (auto simp: matching_neighbors_def)
        with False fset show ?thesis by simp
      qed
    qed
  qed
  have n': "n + 1 = int (card (?v' - set ?q'))"
  proof -
    have "finite (visited - set (?p # queue))" using fin by simp
    moreover have "?p \<notin> visited - set (?p # queue)" by simp
    ultimately show ?thesis unfolding done' using n by simp
  qed
  have dist': "distinct ?q'" using qdist fdist fset qv by auto
  have qsub': "set ?q' \<subseteq> ?v'" using qv by auto
  have "bfs_inv ds g0 seed orig new ?g' ?q' ?v' (n + 1)"
    unfolding bfs_inv_def
    using len' seed sub' dist' qsub' cells' closed' n' by blast
  with pval set scan show ?thesis by blast
qed

lemma bfs_inv_final:
  assumes orig: "grid_get g0 (fst seed) (snd seed) = Some orig"
    and inv: "bfs_inv ds g0 seed orig new g [] visited n"
  shows "visited = component ds g0 seed"
proof
  from inv show "visited \<subseteq> component ds g0 seed" by (simp add: bfs_inv_def)
next
  from inv have seed: "seed \<in> visited"
    and closed: "\<And>x. x \<in> visited \<Longrightarrow>
        matching_neighbors (height_of g0) (width_of g0) orig g0 (fst x) (snd x) ds \<subseteq> visited"
    by (simp_all add: bfs_inv_def)
  show "component ds g0 seed \<subseteq> visited"
  proof
    fix p assume "p \<in> component ds g0 seed"
    then show "p \<in> visited"
    proof (induction rule: component.induct)
      case seed
      show ?case by (rule \<open>seed \<in> visited\<close>)
    next
      case (step p dr dc)
      from step.hyps(2,3,4) orig
      have "(fst p + dr, snd p + dc) \<in>
              matching_neighbors (height_of g0) (width_of g0) orig g0 (fst p) (snd p) ds"
        by (auto simp: matching_neighbors_def)
      with closed[OF step.IH] show ?case by blast
    qed
  qed
qed

section \<open>Correctness of the loop\<close>

text \<open>
  The grid \<open>g'\<close> is \<open>g0\<close> with the seed's component overwritten by the new value:
  the same row objects with the same lengths, and cell by cell the new value on the
  component and the old value elsewhere.
\<close>

definition filled_as :: "coord list \<Rightarrow> grid \<Rightarrow> coord \<Rightarrow> cell \<Rightarrow> grid \<Rightarrow> bool" where
  "filled_as ds g0 seed new g' \<longleftrightarrow>
     same_extent g' g0 \<and>
     (\<forall>r c. in_bounds (height_of g0) (width_of g0) r c \<longrightarrow>
        grid_get g' r c =
          (if (r, c) \<in> component ds g0 seed then Some new else grid_get g0 r c))"

lemma bfs_loop_correct:
  assumes rect: "rectangular g0"
    and unsh: "distinct (rows g0)"
    and orig: "grid_get g0 (fst seed) (snd seed) = Some orig"
    and neq: "orig \<noteq> new"
    and inv: "bfs_inv ds g0 seed orig new g queue visited n"
  shows "\<exists>g'. bfs_loop PlainMatch ds (height_of g0) (width_of g0) orig new g queue visited n =
                (g', Inr (int (card (component ds g0 seed)))) \<and>
              filled_as ds g0 seed new g'"
  using inv
proof (induction "card (unvisited (height_of g0) (width_of g0) visited) + length queue"
    arbitrary: g queue visited n rule: less_induct)
  case less
  let ?h = "height_of g0" and ?w = "width_of g0"
  show ?case
  proof (cases queue)
    case Nil
    with less.prems have inv0: "bfs_inv ds g0 seed orig new g [] visited n" by simp
    from bfs_inv_final[OF orig inv0] have v: "visited = component ds g0 seed" .
    from inv0 v have "n = int (card (component ds g0 seed))" and "filled_as ds g0 seed new g"
      by (simp_all add: bfs_inv_def filled_as_def)
    with Nil show ?thesis by simp
  next
    case (Cons p rest)
    obtain row col where p: "p = (row, col)" by (cases p)
    from less.prems Cons p have inv1: "bfs_inv ds g0 seed orig new g ((row, col) # rest) visited n"
      by simp
    from bfs_inv_step[OF rect unsh orig neq inv1] obtain g' queue' visited' where
      get: "grid_get g row col = Some orig"
      and set: "grid_set g row col new = Some g'"
      and scan: "scan_directions PlainMatch ?h ?w orig g' row col ds (rest, visited) =
                   Inr (queue', visited')"
      and inv': "bfs_inv ds g0 seed orig new g' queue' visited' (n + 1)"
      by blast
    from scan_directions_measure[OF scan] Cons
    have "card (unvisited ?h ?w visited') + length queue' <
          card (unvisited ?h ?w visited) + length queue"
      by simp
    from less.hyps[OF this inv'] obtain gf where
      gf: "bfs_loop PlainMatch ds ?h ?w orig new g' queue' visited' (n + 1) =
             (gf, Inr (int (card (component ds g0 seed))))"
        "filled_as ds g0 seed new gf"
      by blast
    have "bfs_loop PlainMatch ds ?h ?w orig new g queue visited n =
          bfs_loop PlainMatch ds ?h ?w orig new g' queue' visited' (n + 1)"
      unfolding Cons p using get set scan by simp
    with gf show ?thesis by auto
  qed
qed

lemma fill_correct:
  assumes rect: "rectangular g"
    and unsh: "distinct (rows g)"
    and inb: "in_bounds (height_of g) (width_of g) sr sc"
    and orig: "grid_get g sr sc = Some orig"
    and neq: "orig \<noteq> new"
  shows "\<exists>g'. bfs_loop PlainMatch ds (height_of g) (width_of g) orig new g [(sr, sc)] {(sr, sc)} 0 =
                (g', Inr (int (card (component ds g (sr, sc))))) \<and>
              filled_as ds g (sr, sc) new g'"
proof -
  have "bfs_inv ds g (sr, sc) orig new g [(sr, sc)] {(sr, sc)} 0"
    by (rule bfs_inv_init) (simp add: inb)
  from bfs_loop_correct[OF rect unsh _ neq this] orig show ?thesis by simp
qed

section \<open>Normal return on every rectangular grid\<close>

text \<open>
  Whether or not row objects are shared, on a grid of fixed extent with a queue of
  in-bounds cells the loop returns normally and keeps the extent; every write stores the
  new value, so a cell that holds the new value keeps it.
\<close>

lemma bfs_loop_safe:
  assumes sh: "shaped hh ww g"
    and q: "\<forall>p \<in> set queue. in_bounds hh ww (fst p) (snd p)"
    and sin: "in_bounds hh ww sr sc"
    and sv: "grid_get g sr sc = Some new"
  shows "\<exists>g' n. bfs_loop PlainMatch ds hh ww orig new g queue visited k = (g', Inr n) \<and>
           same_extent g' g \<and> grid_get g' sr sc = Some new"
  using sh q sv
proof (induction "card (unvisited hh ww visited) + length queue"
    arbitrary: g queue visited k rule: less_induct)
  case less
  show ?case
  proof (cases queue)
    case Nil
    with less.prems show ?thesis by (simp add: same_extent_refl)
  next
    case (Cons p rest)
    obtain row col where p: "p = (row, col)" by (cases p)
    from less.prems(2) Cons p have pin: "in_bounds hh ww row col"
      and rin: "\<forall>p \<in> set rest. in_bounds hh ww (fst p) (snd p)" by simp_all
    note sh = less.prems(1)
    from grid_get_in[OF sh pin] obtain v where v: "grid_get g row col = Some v" by blast
    show ?thesis
    proof (cases "v = orig")
      case False
      have "card (unvisited hh ww visited) + length rest <
            card (unvisited hh ww visited) + length queue" using Cons by simp
      from less.hyps[OF this sh rin less.prems(3), of k] v False Cons p
      show ?thesis by simp
    next
      case True
      let ?g' = "write_cell g row col new"
      have set: "grid_set g row col new = Some ?g'" by (rule grid_set_in[OF sh pin])
      have ext: "same_extent ?g' g" by (rule write_cell_extent)
      have sh': "shaped hh ww ?g'" by (rule shaped_same_extent[OF sh ext])
      have sv': "grid_get ?g' sr sc = Some new"
        unfolding grid_get_after_set_shared[OF sh pin sin] using less.prems(3) by simp
      from scan_directions_plain[OF sh', of orig row col ds rest visited] obtain fresh where
        scan: "scan_directions PlainMatch hh ww orig ?g' row col ds (rest, visited) =
                 Inr (rest @ fresh, visited \<union> set fresh)"
        and fset: "set fresh = matching_neighbors hh ww orig ?g' row col ds - visited"
        by blast
      from fset have "\<forall>p \<in> set fresh. in_bounds hh ww (fst p) (snd p)"
        by (auto simp: matching_neighbors_def)
      with rin have q': "\<forall>p \<in> set (rest @ fresh). in_bounds hh ww (fst p) (snd p)" by auto
      from scan_directions_measure[OF scan] Cons
      have "card (unvisited hh ww (visited \<union> set fresh)) + length (rest @ fresh) <
            card (unvisited hh ww visited) + length queue"
        by simp
      from less.hyps[OF this sh' q' sv', of "k + 1"] obtain gf n where
        gf: "bfs_loop PlainMatch ds hh ww orig new ?g' (rest @ fresh) (visited \<union> set fresh)
               (k + 1) = (gf, Inr n)"
          "same_extent gf ?g'" "grid_get gf sr sc = Some new"
        by blast
      have "bfs_loop PlainMatch ds hh ww orig new g queue visited k =
            bfs_loop PlainMatch ds hh ww orig new ?g' (rest @ fresh) (visited \<union> set fresh)
              (k + 1)"
        unfolding Cons p using v True set scan by simp
      with gf same_extent_trans[OF gf(2) ext] show ?thesis by auto
    qed
  qed
qed

lemma fill_returns:
  assumes rect: "rectangular g"
    and inb: "in_bounds (height_of g) (width_of g) sr sc"
    and orig: "grid_get g sr sc = Some orig"
    and neq: "orig \<noteq> new"
  shows "\<exists>g' n. bfs_loop PlainMatch ds (height_of g) (width_of g) orig new g
                   [(sr, sc)] {(sr, sc)} 0 = (g', Inr n) \<and>
           same_extent g' g \<and> grid_get g' sr sc = Some new"
proof -
  let ?h = "height_of g" and ?w = "width_of g"
  let ?g' = "write_cell g sr sc new"
  note sh = rectangular_shaped[OF rect]
  have set: "grid_set g sr sc new = Some ?g'" by (rule grid_set_in[OF sh inb])
  have ext: "same_extent ?g' g" by (rule write_cell_extent)
  have sh': "shaped ?h ?w ?g'" by (rule shaped_same_extent[OF sh ext])
  have sv': "grid_get ?g' sr sc = Some new"
    unfolding grid_get_after_set_shared[OF sh inb inb] by simp
  from scan_directions_plain[OF sh', of orig sr sc ds "[]" "{(sr, sc)}"] obtain fresh where
    scan: "scan_directions PlainMatch ?h ?w orig ?g' sr sc ds ([], {(sr, sc)}) =
             Inr ([] @ fresh, {(sr, sc)} \<union> set fresh)"
    and fset: "set fresh = matching_neighbors ?h ?w orig ?g' sr sc ds - {(sr, sc)}"
    by blast
  from fset have q': "\<forall>p \<in> set ([] @ fresh). in_bounds ?h ?w (fst p) (snd p)"
    by (auto simp: matching_neighbors_def)
  from bfs_loop_safe[OF sh' q' inb sv', of ds orig "{(sr, sc)} \<union> set fresh" 1]
  obtain gf n where
    gf: "bfs_loop PlainMatch ds ?h ?w orig new ?g' ([] @ fresh) ({(sr, sc)} \<union> set fresh) 1 =
           (gf, Inr n)"
      "same_extent gf ?g'" "grid_get gf sr sc = Some new"
    by blast
  have "bfs_loop PlainMatch ds ?h ?w orig new g [(sr, sc)] {(sr, sc)} 0 =
        bfs_loop PlainMatch ds ?h ?w orig new ?g' ([] @ fresh) ({(sr, sc)} \<union> set fresh) 1"
    using orig set scan by simp
  with gf same_extent_trans[OF gf(2) ext] show ?thesis by auto
qed

section \<open>Correctness of the fill functions\<close>

lemma seed_readable:
  assumes "rectangular g" "in_bounds (height_of g) (width_of g) sr sc"
  shows "\<exists>orig. grid_get g sr sc = Some orig"
  using grid_get_in[OF rectangular_shaped[OF assms(1)] assms(2)] by simp

lemma perform_flood_fill_correct:
  assumes rect: "rectangular g"
    and unsh: "distinct (rows g)"
    and inb: "in_bounds (height_of g) (width_of g) sr sc"
    and orig: "grid_get g sr sc = Some orig"
    and neq: "orig \<noteq> new"
  shows "\<exists>g'. perform_flood_fill g sr sc new =
                (g', Inr (int (card (component cardinal_directions g (sr, sc))))) \<and>
              filled_as cardinal_directions g (sr, sc) new g'"
  using fill_correct[OF assms, of cardinal_directions] inb orig neq
  by (simp add: perform_flood_fill_def del: bfs_loop.simps)

lemma flood_fill_diagonal_correct:
  assumes rect: "rectangular g"
    and unsh: "distinct (rows g)"
    and inb: "in_bounds (height_of g) (width_of g) sr sc"
    and orig: "grid_get g sr sc = Some orig"
    and neq: "orig \<noteq> new"
  shows "\<exists>g'. flood_fill_diagonal g sr sc new =
                (g', Inr (int (card (component diagonal_directions g (sr, sc))))) \<and>
              filled_as diagonal_directions g (sr, sc) new g'"
  using fill_correct[OF assms, of diagonal_directions] inb orig neq
  by (simp add: flood_fill_diagonal_def del: bfs_loop.simps)

lemma boundary_seed_noop:
  assumes "in_bounds (height_of g) (width_of g) sr sc"
    and "grid_get g sr sc = Some bv" and "bv \<noteq> []"
  shows "flood_fill_with_boundary g sr sc new (Some bv) = (g, Inr 0)"
  using assms by (simp add: flood_fill_with_boundary_def)

lemma changed_cells_filled:
  assumes orig: "grid_get g (fst seed) (snd seed) = Some orig"
    and neq: "orig \<noteq> new"
    and fill: "filled_as ds g seed new g'"
  shows "changed_cells g g' = component ds g seed"
proof -
  have "(r, c) \<in> changed_cells g g' \<longleftrightarrow> (r, c) \<in> component ds g seed" for r c
  proof (cases "(r, c) \<in> component ds g seed")
    case True
    from component_in_bounds[OF True] have inb: "in_bounds (height_of g) (width_of g) r c"
      by simp
    from component_value[OF True] orig have "grid_get g r c = Some orig" by simp
    moreover from fill inb True have "grid_get g' r c = Some new" by (simp add: filled_as_def)
    ultimately show ?thesis using True inb neq by (simp add: changed_cells_def)
  next
    case False
    with fill show ?thesis by (auto simp: changed_cells_def filled_as_def)
  qed
  then show ?thesis by auto
qed

lemma changed_cells_same: "changed_cells g g = {}"
  by (simp add: changed_cells_def)

lemma component_minus_boundary:
  assumes orig: "grid_get g (fst seed) (snd seed) = Some orig"
  shows "component ds g seed - boundary_cells g b =
         (if b = Some orig then {} else component ds g seed)"
proof -
  have "p \<in> boundary_cells g b \<longleftrightarrow> b = Some orig" if "p \<in> component ds g seed" for p
    using component_value[OF that] orig by (cases p) (auto simp: boundary_cells_def)
  then show ?thesis by auto
qed

lemma perform_flood_fill_returns:
  assumes rect: "rectangular g"
    and inb: "in_bounds (height_of g) (width_of g) sr sc"
    and orig: "grid_get g sr sc = Some orig"
    and neq: "orig \<noteq> new"
  shows "\<exists>g' n. perform_flood_fill g sr sc new = (g', Inr n) \<and>
           same_extent g' g \<and> grid_get g' sr sc = Some new"
  using fill_returns[OF assms, of cardinal_directions] inb orig neq
  by (simp add: perform_flood_fill_def del: bfs_loop.simps)

lemma flood_fill_diagonal_returns:
  assumes rect: "rectangular g"
    and inb: "in_bounds (height_of g) (width_of g) sr sc"
    and orig: "grid_get g sr sc = Some orig"
    and neq: "orig \<noteq> new"
  shows "\<exists>g' n. flood_fill_diagonal g sr sc new = (g', Inr n) \<and>
           same_extent g' g \<and> grid_get g' sr sc = Some new"
  using fill_returns[OF assms, of diagonal_directions] inb orig neq
  by (simp add: flood_fill_diagonal_def del: bfs_loop.simps)


section \<open>Connectivity and count\<close>

text \<open>
  Three grids with a shared row object: \<^verbatim>\<open>row = ['-', '-']; [row] * 2\<close>;
  \<^verbatim>\<open>row = ['-', 'X']; [row, ['X', 'X'], row]\<close>; and
  \<^verbatim>\<open>A = ['-', 'X']; [A, ['X', '-'], ['-', '-'], A, ['-', 'X']]\<close>.
\<close>

definition shared_pair :: grid where
  "shared_pair = \<lparr>rows = [0, 0], store = (\<lambda>_. [])(0 := [''-'', ''-''])\<rparr>"

definition shared_ends :: grid where
  "shared_ends =
     \<lparr>rows = [0, 1, 0], store = (\<lambda>_. [])(0 := [''-'', ''X''], 1 := [''X'', ''X''])\<rparr>"

definition shared_five :: grid where
  "shared_five =
     \<lparr>rows = [0, 1, 2, 0, 3],
      store = (\<lambda>_. [])(0 := [''-'', ''X''], 1 := [''X'', ''-''], 2 := [''-'', ''-''],
                3 := [''-'', ''X''])\<rparr>"

text \<open>
  C1, as stated, fails on a rectangular grid with a shared row object: on
  \<open>shared_ends\<close> with seed \<open>(0, 0)\<close> and replacement \<open>''O''\<close> the write into row 0
  is a write into row 2, so the cell \<open>(2, 0)\<close>, which no path of \<open>''-''\<close> cells joins
  to the seed, is changed.
\<close>

theorem fill_connectivity_counterexample:
  "rectangular shared_ends \<and>
   in_bounds (height_of shared_ends) (width_of shared_ends) 0 0 \<and>
   grid_get shared_ends 0 0 = Some ''-'' \<and>
   grid_get shared_ends 2 0 = Some ''-'' \<and>
   (2, 0) \<notin> component cardinal_directions shared_ends (0, 0) \<and>
   snd (perform_flood_fill shared_ends 0 0 ''O'') = Inr 1 \<and>
   grid_get (fst (perform_flood_fill shared_ends 0 0 ''O'')) 2 0 = Some ''O''"
proof -
  have sub: "p = (0, 0)" if "p \<in> component cardinal_directions shared_ends (0, 0)" for p
    using that
  proof (induction rule: component.induct)
    case seed
    show ?case by simp
  next
    case (step p dr dc)
    from step.hyps(2) have "(dr, dc) = (-1, 0) \<or> (dr, dc) = (1, 0) \<or> (dr, dc) = (0, 1) \<or>
        (dr, dc) = (0, -1)"
      by (simp add: cardinal_directions_def)
    with step.IH step.hyps(3,4) show ?case
      by (auto simp: shared_ends_def eval_defs)
  qed
  have "(2, 0) \<notin> component cardinal_directions shared_ends (0, 0)"
    using sub[of "(2, 0)"] by auto
  moreover have "rectangular shared_ends"
    by (simp add: rectangular_def shared_ends_def eval_defs)
  moreover have "snd (perform_flood_fill shared_ends 0 0 ''O'') = Inr 1"
    "grid_get (fst (perform_flood_fill shared_ends 0 0 ''O'')) 2 0 = Some ''O''"
    by (simp_all add: perform_flood_fill_def shared_ends_def eval_defs)
  moreover have "in_bounds (height_of shared_ends) (width_of shared_ends) 0 0"
    "grid_get shared_ends 0 0 = Some ''-''" "grid_get shared_ends 2 0 = Some ''-''"
    by (simp_all add: shared_ends_def eval_defs)
  ultimately show ?thesis by simp
qed

text \<open>
  C1, amended. For a rectangular grid whose rows are pairwise distinct objects, an
  in-bounds seed and a replacement value other than the value at the seed,
  \<^verbatim>\<open>perform_flood_fill\<close> (4 directions) and \<^verbatim>\<open>flood_fill_diagonal\<close> (8 directions)
  return normally, the grid keeps its rows and their lengths, every cell of the seed's
  component under the function's adjacency holds the replacement value, and every other
  cell holds the value it had.
\<close>

theorem fill_connectivity:
  assumes "rectangular g"
    and "unshared g"
    and "in_bounds (height_of g) (width_of g) start_row start_col"
    and "grid_get g start_row start_col \<noteq> Some new_shape"
  shows "(\<exists>g' n. perform_flood_fill g start_row start_col new_shape = (g', Inr n) \<and>
            rows g' = rows g \<and> map length (cells g') = map length (cells g) \<and>
            (\<forall>r c. in_bounds (height_of g) (width_of g) r c \<longrightarrow>
               grid_get g' r c =
                 (if (r, c) \<in> component cardinal_directions g (start_row, start_col)
                  then Some new_shape else grid_get g r c))) \<and>
         (\<exists>g' n. flood_fill_diagonal g start_row start_col new_shape = (g', Inr n) \<and>
            rows g' = rows g \<and> map length (cells g') = map length (cells g) \<and>
            (\<forall>r c. in_bounds (height_of g) (width_of g) r c \<longrightarrow>
               grid_get g' r c =
                 (if (r, c) \<in> component diagonal_directions g (start_row, start_col)
                  then Some new_shape else grid_get g r c)))"
proof -
  from assms(2) have unsh: "distinct (rows g)" by (simp add: unshared_def)
  from seed_readable[OF assms(1,3)] obtain orig where
    orig: "grid_get g start_row start_col = Some orig" by blast
  with assms(4) have neq: "orig \<noteq> new_shape" by simp
  from perform_flood_fill_correct[OF assms(1) unsh assms(3) orig neq] obtain gc nc where
    gc: "perform_flood_fill g start_row start_col new_shape = (gc, Inr nc)"
      "filled_as cardinal_directions g (start_row, start_col) new_shape gc"
    by blast
  from flood_fill_diagonal_correct[OF assms(1) unsh assms(3) orig neq] obtain gd nd where
    gd: "flood_fill_diagonal g start_row start_col new_shape = (gd, Inr nd)"
      "filled_as diagonal_directions g (start_row, start_col) new_shape gd"
    by blast
  from gc(2) have ec: "same_extent gc g" by (simp add: filled_as_def)
  from gd(2) have ed: "same_extent gd g" by (simp add: filled_as_def)
  from ec same_extent_cells[OF ec] gc have
    "\<exists>g' n. perform_flood_fill g start_row start_col new_shape = (g', Inr n) \<and>
            rows g' = rows g \<and> map length (cells g') = map length (cells g) \<and>
            (\<forall>r c. in_bounds (height_of g) (width_of g) r c \<longrightarrow>
               grid_get g' r c =
                 (if (r, c) \<in> component cardinal_directions g (start_row, start_col)
                  then Some new_shape else grid_get g r c))"
    unfolding filled_as_def same_extent_def by blast
  moreover from ed same_extent_cells[OF ed] gd have
    "\<exists>g' n. flood_fill_diagonal g start_row start_col new_shape = (g', Inr n) \<and>
            rows g' = rows g \<and> map length (cells g') = map length (cells g) \<and>
            (\<forall>r c. in_bounds (height_of g) (width_of g) r c \<longrightarrow>
               grid_get g' r c =
                 (if (r, c) \<in> component diagonal_directions g (start_row, start_col)
                  then Some new_shape else grid_get g r c))"
    unfolding filled_as_def same_extent_def by blast
  ultimately show ?thesis by (rule conjI)
qed

theorem fill_connectivity_witness:
  "rectangular (fresh_grid [[''-'', ''X''], [''X'', ''-'']]) \<and>
   unshared (fresh_grid [[''-'', ''X''], [''X'', ''-'']]) \<and>
   in_bounds (height_of (fresh_grid [[''-'', ''X''], [''X'', ''-'']]))
     (width_of (fresh_grid [[''-'', ''X''], [''X'', ''-'']])) 0 0 \<and>
   grid_get (fresh_grid [[''-'', ''X''], [''X'', ''-'']]) 0 0 \<noteq> Some ''O'' \<and>
   (\<exists>g' n. perform_flood_fill (fresh_grid [[''-'', ''X''], [''X'', ''-'']]) 0 0 ''O'' =
        (g', Inr n) \<and>
      grid_get g' 0 0 = Some ''O'') \<and>
   (\<exists>g' n. flood_fill_diagonal (fresh_grid [[''-'', ''X''], [''X'', ''-'']]) 0 0 ''O'' =
        (g', Inr n) \<and>
      grid_get g' 0 0 = Some ''O'')"
proof -
  let ?G = "fresh_grid [[''-'', ''X''], [''X'', ''-'']]"
  have h1: "rectangular ?G" by (simp add: rectangular_def eval_defs)
  have h2: "unshared ?G" by (simp add: unshared_def eval_defs)
  have h3: "in_bounds (height_of ?G) (width_of ?G) 0 0" by (simp add: eval_defs)
  have h4: "grid_get ?G 0 0 \<noteq> Some ''O''" by (simp add: eval_defs)
  have s1: "(0, 0) \<in> component cardinal_directions ?G (0, 0)"
    by (rule component.seed) (simp add: h3)
  have s2: "(0, 0) \<in> component diagonal_directions ?G (0, 0)"
    by (rule component.seed) (simp add: h3)
  from fill_connectivity[OF h1 h2 h3 h4] obtain g1 n1 g2 n2 where
    a: "perform_flood_fill ?G 0 0 ''O'' = (g1, Inr n1)"
       "\<forall>r c. in_bounds (height_of ?G) (width_of ?G) r c \<longrightarrow>
          grid_get g1 r c = (if (r, c) \<in> component cardinal_directions ?G (0, 0)
                             then Some ''O'' else grid_get ?G r c)"
    and b: "flood_fill_diagonal ?G 0 0 ''O'' = (g2, Inr n2)"
       "\<forall>r c. in_bounds (height_of ?G) (width_of ?G) r c \<longrightarrow>
          grid_get g2 r c = (if (r, c) \<in> component diagonal_directions ?G (0, 0)
                             then Some ''O'' else grid_get ?G r c)"
    by (elim exE conjE) (rule that)
  from a(2)[rule_format, OF h3] s1 have k1: "grid_get g1 0 0 = Some ''O''" by simp
  from b(2)[rule_format, OF h3] s2 have k2: "grid_get g2 0 0 = Some ''O''" by simp
  from a(1) k1 have e1: "\<exists>g' n. perform_flood_fill ?G 0 0 ''O'' = (g', Inr n) \<and>
      grid_get g' 0 0 = Some ''O''" by (intro exI conjI)
  from b(1) k2 have e2: "\<exists>g' n. flood_fill_diagonal ?G 0 0 ''O'' = (g', Inr n) \<and>
      grid_get g' 0 0 = Some ''O''" by (intro exI conjI)
  show ?thesis by (intro conjI h1 h2 h3 h4 e1 e2)
qed

text \<open>
  C2, as stated, fails in two ways. On the early return: on the one-cell grid
  \<open>[[''X'']]\<close> with replacement \<open>''X''\<close> the call returns 0 and changes nothing, while
  the seed's component has one cell. And on a shared row object: on \<open>shared_pair\<close>
  with seed \<open>(0, 0)\<close> and replacement \<open>''X''\<close> each write fills a cell of both rows,
  and the call returns 2 while the seed's component has four cells.
\<close>

theorem fill_count_counterexample:
  "snd (perform_flood_fill (fresh_grid [[''X'']]) 0 0 ''X'') = Inr 0 \<and>
   card (component cardinal_directions (fresh_grid [[''X'']]) (0, 0)) = 1 \<and>
   rectangular shared_pair \<and>
   in_bounds (height_of shared_pair) (width_of shared_pair) 0 0 \<and>
   grid_get shared_pair 0 0 \<noteq> Some ''X'' \<and>
   snd (perform_flood_fill shared_pair 0 0 ''X'') = Inr 2 \<and>
   card (component cardinal_directions shared_pair (0, 0)) = 4"
proof -
  let ?G = "fresh_grid [[''X'']]"
  have inb: "in_bounds (height_of ?G) (width_of ?G) 0 0" by (simp add: eval_defs)
  have "(0, 0) \<in> component cardinal_directions ?G (0, 0)"
    by (rule component.seed) (simp add: inb)
  moreover have "component cardinal_directions ?G (0, 0) \<subseteq> {(0, 0)}"
    using component_subset_box[of cardinal_directions ?G "(0, 0)"]
    by (auto simp: eval_defs)
  ultimately have "component cardinal_directions ?G (0, 0) = {(0, 0)}" by blast
  then have one: "snd (perform_flood_fill ?G 0 0 ''X'') = Inr 0 \<and>
      card (component cardinal_directions ?G (0, 0)) = 1"
    by (simp add: perform_flood_fill_def eval_defs)
  let ?C = "component cardinal_directions shared_pair (0, 0)"
  have dims: "height_of shared_pair = 2" "width_of shared_pair = 2"
    by (simp_all add: shared_pair_def eval_defs)
  have vals: "grid_get shared_pair 0 0 = Some ''-''" "grid_get shared_pair 0 1 = Some ''-''"
    "grid_get shared_pair 1 0 = Some ''-''" "grid_get shared_pair 1 1 = Some ''-''"
    by (simp_all add: shared_pair_def eval_defs)
  have c00: "(0, 0) \<in> ?C"
    by (rule component.seed) (simp add: dims in_bounds_def)
  have c01: "(0, 1) \<in> ?C"
    using component.step[OF c00, of 0 1] vals by (simp add: dims in_bounds_def cardinal_directions_def)
  have c10: "(1, 0) \<in> ?C"
    using component.step[OF c00, of 1 0] vals by (simp add: dims in_bounds_def cardinal_directions_def)
  have c11: "(1, 1) \<in> ?C"
    using component.step[OF c10, of 0 1] vals by (simp add: dims in_bounds_def cardinal_directions_def)
  have box: "{0..<2::int} = {0, 1}" by auto
  have "?C \<subseteq> {0, 1} \<times> {0, 1}"
    using component_subset_box[of cardinal_directions shared_pair "(0, 0)"]
    by (simp add: dims box)
  with c00 c01 c10 c11 have "?C = {(0, 0), (0, 1), (1, 0), (1, 1)}" by auto
  then have four: "card ?C = 4" by simp
  have run: "snd (perform_flood_fill shared_pair 0 0 ''X'') = Inr 2"
    by (simp add: perform_flood_fill_def shared_pair_def eval_defs)
  have rect: "rectangular shared_pair"
    by (simp add: rectangular_def shared_pair_def eval_defs)
  have sin: "in_bounds (height_of shared_pair) (width_of shared_pair) 0 0"
    by (simp add: dims in_bounds_def)
  have sne: "grid_get shared_pair 0 0 \<noteq> Some ''X''" by (simp add: vals)
  from one rect sin sne run four show ?thesis by simp
qed

text \<open>
  C2, amended. For a rectangular grid whose rows are pairwise distinct objects, an
  in-bounds seed and a replacement value other than the value at the seed, and unless
  the boundary value and the value at the seed are both the empty string, each function
  returns the number of cells whose value the call changed, and that number is the size
  of the seed's component under the function's adjacency, less the cells that hold the
  boundary value when one is given.
\<close>

theorem fill_count:
  assumes "rectangular g"
    and "unshared g"
    and "in_bounds (height_of g) (width_of g) start_row start_col"
    and "grid_get g start_row start_col \<noteq> Some new_shape"
    and "\<not> (boundary_shape = Some [] \<and> grid_get g start_row start_col = Some [])"
  shows "(\<exists>g'. perform_flood_fill g start_row start_col new_shape =
                 (g', Inr (int (card (changed_cells g g')))) \<and>
               card (changed_cells g g') =
               card (component cardinal_directions g (start_row, start_col))) \<and>
         (\<exists>g'. flood_fill_diagonal g start_row start_col new_shape =
                 (g', Inr (int (card (changed_cells g g')))) \<and>
               card (changed_cells g g') =
               card (component diagonal_directions g (start_row, start_col))) \<and>
         (\<exists>g'. flood_fill_with_boundary g start_row start_col new_shape boundary_shape =
                 (g', Inr (int (card (changed_cells g g')))) \<and>
               card (changed_cells g g') =
               card (component cardinal_directions g (start_row, start_col)
                     - boundary_cells g boundary_shape))"
proof -
  let ?seed = "(start_row, start_col)"
  from assms(2) have unsh: "distinct (rows g)" by (simp add: unshared_def)
  note inb = assms(3)
  from seed_readable[OF assms(1) inb] obtain orig where
    orig: "grid_get g start_row start_col = Some orig" by blast
  with assms(4) have neq: "orig \<noteq> new_shape" by simp
  from orig have orig': "grid_get g (fst ?seed) (snd ?seed) = Some orig" by simp
  from perform_flood_fill_correct[OF assms(1) unsh inb orig neq] obtain gc where
    gc: "perform_flood_fill g start_row start_col new_shape =
           (gc, Inr (int (card (component cardinal_directions g ?seed))))"
        "filled_as cardinal_directions g ?seed new_shape gc"
    by blast
  from flood_fill_diagonal_correct[OF assms(1) unsh inb orig neq] obtain gd where
    gd: "flood_fill_diagonal g start_row start_col new_shape =
           (gd, Inr (int (card (component diagonal_directions g ?seed))))"
        "filled_as diagonal_directions g ?seed new_shape gd"
    by blast
  note cc = changed_cells_filled[OF orig' neq gc(2)]
  note cd = changed_cells_filled[OF orig' neq gd(2)]
  have plain: "\<exists>g'. perform_flood_fill g start_row start_col new_shape =
                 (g', Inr (int (card (changed_cells g g')))) \<and>
               card (changed_cells g g') = card (component cardinal_directions g ?seed)"
    using gc(1) cc by simp
  have diag: "\<exists>g'. flood_fill_diagonal g start_row start_col new_shape =
                 (g', Inr (int (card (changed_cells g g')))) \<and>
               card (changed_cells g g') = card (component diagonal_directions g ?seed)"
    using gd(1) cd by simp
  have bound: "\<exists>g'. flood_fill_with_boundary g start_row start_col new_shape boundary_shape =
                 (g', Inr (int (card (changed_cells g g')))) \<and>
               card (changed_cells g g') =
               card (component cardinal_directions g ?seed - boundary_cells g boundary_shape)"
  proof (cases "boundary_shape = Some orig")
    case True
    with assms(5) orig have "orig \<noteq> []" by auto
    from boundary_seed_noop[OF inb orig this] True
    have "flood_fill_with_boundary g start_row start_col new_shape boundary_shape = (g, Inr 0)"
      by simp
    with True show ?thesis
      by (simp add: changed_cells_same component_minus_boundary[OF orig'])
  next
    case False
    with orig have "\<not> (truthy boundary_shape \<and> boundary_shape = grid_get g start_row start_col)"
      by simp
    from flood_fill_with_boundary_plain[OF this] gc(1) cc False show ?thesis
      by (simp add: component_minus_boundary[OF orig'])
  qed
  from plain diag bound show ?thesis by blast
qed

theorem fill_count_witness:
  "rectangular (fresh_grid [[''#'', ''-'', ''-'']]) \<and>
   unshared (fresh_grid [[''#'', ''-'', ''-'']]) \<and>
   in_bounds (height_of (fresh_grid [[''#'', ''-'', ''-'']]))
     (width_of (fresh_grid [[''#'', ''-'', ''-'']])) 0 1 \<and>
   grid_get (fresh_grid [[''#'', ''-'', ''-'']]) 0 1 \<noteq> Some ''O'' \<and>
   \<not> (Some ''#'' = Some [] \<and> grid_get (fresh_grid [[''#'', ''-'', ''-'']]) 0 1 = Some []) \<and>
   (\<exists>g'. flood_fill_with_boundary (fresh_grid [[''#'', ''-'', ''-'']]) 0 1 ''O'' (Some ''#'') =
            (g', Inr (int (card (changed_cells (fresh_grid [[''#'', ''-'', ''-'']]) g')))) \<and>
          card (changed_cells (fresh_grid [[''#'', ''-'', ''-'']]) g') =
          card (component cardinal_directions (fresh_grid [[''#'', ''-'', ''-'']]) (0, 1)
                - boundary_cells (fresh_grid [[''#'', ''-'', ''-'']]) (Some ''#''))) \<and>
   snd (flood_fill_with_boundary (fresh_grid [[''#'', ''-'', ''-'']]) 0 1 ''O'' (Some ''#'')) =
     Inr 2"
proof -
  let ?G = "fresh_grid [[''#'', ''-'', ''-'']]"
  have h1: "rectangular ?G" by (simp add: rectangular_def eval_defs)
  have h2: "unshared ?G" by (simp add: unshared_def eval_defs)
  have h3: "in_bounds (height_of ?G) (width_of ?G) 0 1" by (simp add: eval_defs)
  have h4: "grid_get ?G 0 1 \<noteq> Some ''O''" by (simp add: eval_defs)
  have h5: "\<not> (Some ''#'' = Some [] \<and> grid_get ?G 0 1 = Some [])" by simp
  have e: "snd (flood_fill_with_boundary ?G 0 1 ''O'' (Some ''#'')) = Inr 2"
    by (simp add: flood_fill_with_boundary_def eval_defs)
  from fill_count[OF h1 h2 h3 h4 h5]
  have c: "\<exists>g'. flood_fill_with_boundary ?G 0 1 ''O'' (Some ''#'') =
            (g', Inr (int (card (changed_cells ?G g')))) \<and>
          card (changed_cells ?G g') =
          card (component cardinal_directions ?G (0, 1) - boundary_cells ?G (Some ''#''))"
    by (elim conjE)
  show ?thesis by (intro conjI h1 h2 h3 h4 h5 c e)
qed

section \<open>Filling twice; four against eight directions\<close>

lemma refill_plain:
  assumes "in_bounds (height_of g) (width_of g) sr sc" and "grid_get g sr sc = Some new"
  shows "perform_flood_fill g sr sc new = (g, Inr 0)"
    and "flood_fill_diagonal g sr sc new = (g, Inr 0)"
    and "flood_fill_with_boundary g sr sc new b = (g, Inr 0)"
  using assms
  by (simp_all add: perform_flood_fill_def flood_fill_diagonal_def flood_fill_with_boundary_def)

text \<open>
  C7. For a rectangular grid and an in-bounds seed, each function returns normally,
  and the same call on the grid it leaves returns 0 and leaves that grid as it is.
  Rows may be shared: the seed's cell holds the replacement value after the first call
  in any case.
\<close>

theorem fill_twice:
  assumes "rectangular g"
    and "in_bounds (height_of g) (width_of g) start_row start_col"
  shows "(\<exists>g1 n. perform_flood_fill g start_row start_col new_shape = (g1, Inr n) \<and>
            perform_flood_fill g1 start_row start_col new_shape = (g1, Inr 0)) \<and>
         (\<exists>g1 n. flood_fill_diagonal g start_row start_col new_shape = (g1, Inr n) \<and>
            flood_fill_diagonal g1 start_row start_col new_shape = (g1, Inr 0)) \<and>
         (\<exists>g1 n. flood_fill_with_boundary g start_row start_col new_shape boundary_shape =
              (g1, Inr n) \<and>
            flood_fill_with_boundary g1 start_row start_col new_shape boundary_shape =
              (g1, Inr 0))"
proof -
  from seed_readable[OF assms] obtain orig where
    orig: "grid_get g start_row start_col = Some orig" by blast
  show ?thesis
  proof (cases "orig = new_shape")
    case True
    with orig have "grid_get g start_row start_col = Some new_shape" by simp
    from refill_plain[OF assms(2) this] show ?thesis by blast
  next
    case neq: False
    from perform_flood_fill_returns[OF assms orig neq] obtain gc nc where
      gc: "perform_flood_fill g start_row start_col new_shape = (gc, Inr nc)"
        "same_extent gc g" "grid_get gc start_row start_col = Some new_shape"
      by blast
    from flood_fill_diagonal_returns[OF assms orig neq] obtain gd nd where
      gd: "flood_fill_diagonal g start_row start_col new_shape = (gd, Inr nd)"
        "same_extent gd g" "grid_get gd start_row start_col = Some new_shape"
      by blast
    from same_extent_dims[OF gc(2)] assms(2) gc(3) have sc:
      "in_bounds (height_of gc) (width_of gc) start_row start_col"
      "grid_get gc start_row start_col = Some new_shape" by simp_all
    from same_extent_dims[OF gd(2)] assms(2) gd(3) have sd:
      "in_bounds (height_of gd) (width_of gd) start_row start_col"
      "grid_get gd start_row start_col = Some new_shape" by simp_all
    have plain: "\<exists>g1 n. perform_flood_fill g start_row start_col new_shape = (g1, Inr n) \<and>
            perform_flood_fill g1 start_row start_col new_shape = (g1, Inr 0)"
      using gc(1) refill_plain(1)[OF sc] by blast
    have diag: "\<exists>g1 n. flood_fill_diagonal g start_row start_col new_shape = (g1, Inr n) \<and>
            flood_fill_diagonal g1 start_row start_col new_shape = (g1, Inr 0)"
      using gd(1) refill_plain(2)[OF sd] by blast
    have bound: "\<exists>g1 n. flood_fill_with_boundary g start_row start_col new_shape boundary_shape =
              (g1, Inr n) \<and>
            flood_fill_with_boundary g1 start_row start_col new_shape boundary_shape =
              (g1, Inr 0)"
    proof (cases "truthy boundary_shape \<and> boundary_shape = Some orig")
      case True
      then have b: "boundary_shape = Some orig" and ne: "orig \<noteq> []" by auto
      from boundary_seed_noop[OF assms(2) orig ne] b
      have "flood_fill_with_boundary g start_row start_col new_shape boundary_shape = (g, Inr 0)"
        by simp
      then show ?thesis by simp
    next
      case False
      with orig
      have "\<not> (truthy boundary_shape \<and> boundary_shape = grid_get g start_row start_col)"
        by simp
      from flood_fill_with_boundary_plain[OF this] gc(1)
      have "flood_fill_with_boundary g start_row start_col new_shape boundary_shape =
              (gc, Inr nc)" by simp
      with refill_plain(3)[OF sc] show ?thesis by blast
    qed
    from plain diag bound show ?thesis by blast
  qed
qed

theorem fill_twice_witness:
  "rectangular shared_ends \<and>
   in_bounds (height_of shared_ends) (width_of shared_ends) 0 0 \<and>
   (\<exists>g1 n. perform_flood_fill shared_ends 0 0 ''O'' = (g1, Inr n) \<and>
      perform_flood_fill g1 0 0 ''O'' = (g1, Inr 0)) \<and>
   (\<exists>g1 n. flood_fill_diagonal shared_ends 0 0 ''O'' = (g1, Inr n) \<and>
      flood_fill_diagonal g1 0 0 ''O'' = (g1, Inr 0)) \<and>
   (\<exists>g1 n. flood_fill_with_boundary shared_ends 0 0 ''O'' (Some ''X'') = (g1, Inr n) \<and>
      flood_fill_with_boundary g1 0 0 ''O'' (Some ''X'') = (g1, Inr 0))"
proof -
  have h1: "rectangular shared_ends" by (simp add: rectangular_def shared_ends_def eval_defs)
  have h2: "in_bounds (height_of shared_ends) (width_of shared_ends) 0 0"
    by (simp add: shared_ends_def eval_defs)
  from fill_twice[OF h1 h2, of "''O''" "Some ''X''"] h1 h2 show ?thesis by (intro conjI) simp_all
qed

text \<open>
  C8, as stated, fails on a rectangular grid with a shared row object: on
  \<open>shared_five\<close> (rows 0 and 3 are one object) with seed \<open>(1, 1)\<close> and replacement
  \<open>''O''\<close>, \<^verbatim>\<open>perform_flood_fill\<close> returns 5 and \<^verbatim>\<open>flood_fill_diagonal\<close>, each run on
  the initial grid, returns 4.
\<close>

theorem diagonal_count_ge_cardinal_counterexample:
  "rectangular shared_five \<and>
   in_bounds (height_of shared_five) (width_of shared_five) 1 1 \<and>
   snd (perform_flood_fill shared_five 1 1 ''O'') = Inr 5 \<and>
   snd (flood_fill_diagonal shared_five 1 1 ''O'') = Inr 4"
proof -
  have "rectangular shared_five" by (simp add: rectangular_def shared_five_def eval_defs)
  moreover have "in_bounds (height_of shared_five) (width_of shared_five) 1 1"
    by (simp add: shared_five_def eval_defs)
  moreover have "snd (perform_flood_fill shared_five 1 1 ''O'') = Inr 5"
    by (simp add: perform_flood_fill_def shared_five_def eval_defs)
  moreover have "snd (flood_fill_diagonal shared_five 1 1 ''O'') = Inr 4"
    by (simp add: flood_fill_diagonal_def shared_five_def eval_defs)
  ultimately show ?thesis by simp
qed

text \<open>
  C8, amended. For a rectangular grid whose rows are pairwise distinct objects and an
  in-bounds seed, both \<^verbatim>\<open>perform_flood_fill\<close> and \<^verbatim>\<open>flood_fill_diagonal\<close> return
  normally on the same initial grid, and the count of the second is at least the count
  of the first. On the checkerboard \<open>[[''-'', ''X''], [''X'', ''-'']]\<close> with seed
  \<open>(0, 0)\<close> and a replacement value other than \<open>''-''\<close> the counts are 1 and 2.
\<close>

theorem diagonal_count_ge_cardinal:
  "(rectangular g \<and> unshared g \<and>
    in_bounds (height_of g) (width_of g) start_row start_col \<longrightarrow>
      (\<exists>gc gd nc nd.
          perform_flood_fill g start_row start_col new_shape = (gc, Inr nc) \<and>
          flood_fill_diagonal g start_row start_col new_shape = (gd, Inr nd) \<and> nc \<le> nd)) \<and>
   (v \<noteq> ''-'' \<longrightarrow>
      snd (perform_flood_fill (fresh_grid [[''-'', ''X''], [''X'', ''-'']]) 0 0 v) = Inr 1 \<and>
      snd (flood_fill_diagonal (fresh_grid [[''-'', ''X''], [''X'', ''-'']]) 0 0 v) = Inr 2)"
proof (intro conjI impI)
  assume a: "rectangular g \<and> unshared g \<and>
    in_bounds (height_of g) (width_of g) start_row start_col"
  then have rect: "rectangular g" and unsh: "distinct (rows g)"
    and inb: "in_bounds (height_of g) (width_of g) start_row start_col"
    by (simp_all add: unshared_def)
  from seed_readable[OF rect inb] obtain orig where
    orig: "grid_get g start_row start_col = Some orig" by blast
  show "\<exists>gc gd nc nd.
          perform_flood_fill g start_row start_col new_shape = (gc, Inr nc) \<and>
          flood_fill_diagonal g start_row start_col new_shape = (gd, Inr nd) \<and> nc \<le> nd"
  proof (cases "orig = new_shape")
    case True
    with orig have "grid_get g start_row start_col = Some new_shape" by simp
    from refill_plain(1,2)[OF inb this] show ?thesis by simp
  next
    case neq: False
    let ?C = "component cardinal_directions g (start_row, start_col)"
    let ?D = "component diagonal_directions g (start_row, start_col)"
    from perform_flood_fill_correct[OF rect unsh inb orig neq] obtain gc where
      gc: "perform_flood_fill g start_row start_col new_shape = (gc, Inr (int (card ?C)))"
      by blast
    from flood_fill_diagonal_correct[OF rect unsh inb orig neq] obtain gd where
      gd: "flood_fill_diagonal g start_row start_col new_shape = (gd, Inr (int (card ?D)))"
      by blast
    have "?C \<subseteq> ?D"
      by (rule component_mono) (auto simp: cardinal_directions_def diagonal_directions_def)
    from card_mono[OF finite_component this] have "int (card ?C) \<le> int (card ?D)" by simp
    with gc gd show ?thesis by blast
  qed
next
  assume "v \<noteq> ''-''"
  then have "''-'' \<noteq> v" by blast
  then show "snd (perform_flood_fill (fresh_grid [[''-'', ''X''], [''X'', ''-'']]) 0 0 v) = Inr 1"
    by (simp add: perform_flood_fill_def eval_defs)
next
  assume "v \<noteq> ''-''"
  then have "''-'' \<noteq> v" by blast
  then show "snd (flood_fill_diagonal (fresh_grid [[''-'', ''X''], [''X'', ''-'']]) 0 0 v) = Inr 2"
    by (simp add: flood_fill_diagonal_def eval_defs)
qed

theorem diagonal_count_ge_cardinal_witness:
  "rectangular (fresh_grid [[''-'', ''X''], [''X'', ''-'']]) \<and>
   unshared (fresh_grid [[''-'', ''X''], [''X'', ''-'']]) \<and>
   in_bounds (height_of (fresh_grid [[''-'', ''X''], [''X'', ''-'']]))
     (width_of (fresh_grid [[''-'', ''X''], [''X'', ''-'']])) 0 0 \<and>
   ''O'' \<noteq> ''-'' \<and>
   (\<exists>gc gd nc nd.
      perform_flood_fill (fresh_grid [[''-'', ''X''], [''X'', ''-'']]) 0 0 ''O'' = (gc, Inr nc) \<and>
      flood_fill_diagonal (fresh_grid [[''-'', ''X''], [''X'', ''-'']]) 0 0 ''O'' = (gd, Inr nd) \<and>
      nc \<le> nd) \<and>
   snd (perform_flood_fill (fresh_grid [[''-'', ''X''], [''X'', ''-'']]) 0 0 ''O'') = Inr 1 \<and>
   snd (flood_fill_diagonal (fresh_grid [[''-'', ''X''], [''X'', ''-'']]) 0 0 ''O'') = Inr 2"
proof -
  let ?G = "fresh_grid [[''-'', ''X''], [''X'', ''-'']]"
  have h1: "rectangular ?G" by (simp add: rectangular_def eval_defs)
  have h2: "unshared ?G" by (simp add: unshared_def eval_defs)
  have h3: "in_bounds (height_of ?G) (width_of ?G) 0 0" by (simp add: eval_defs)
  have h4: "''O'' \<noteq> ''-''" by simp
  from diagonal_count_ge_cardinal[of ?G 0 0 "''O''" "''O''"] h1 h2 h3 h4
  have c: "(\<exists>gc gd nc nd.
      perform_flood_fill ?G 0 0 ''O'' = (gc, Inr nc) \<and>
      flood_fill_diagonal ?G 0 0 ''O'' = (gd, Inr nd) \<and> nc \<le> nd)"
    and e1: "snd (perform_flood_fill ?G 0 0 ''O'') = Inr 1"
    and e2: "snd (flood_fill_diagonal ?G 0 0 ''O'') = Inr 2"
    by blast+
  show ?thesis by (intro conjI h1 h2 h3 h4 c e1 e2)
qed

section \<open>The boundary value\<close>

text \<open>
  A region closed off by boundary-valued cells: every in-bounds neighbour (4 directions)
  of a cell of \<open>inside\<close> is in \<open>inside\<close> or holds the boundary value.
\<close>

definition encloses :: "grid \<Rightarrow> cell \<Rightarrow> coord set \<Rightarrow> bool" where
  "encloses g bv inside \<longleftrightarrow>
     (\<forall>(r, c) \<in> inside. \<forall>(dr, dc) \<in> set cardinal_directions.
        in_bounds (height_of g) (width_of g) (r + dr) (c + dc) \<longrightarrow>
        (r + dr, c + dc) \<in> inside \<or> grid_get g (r + dr) (c + dc) = Some bv)"

lemma component_enclosed:
  assumes enc: "encloses g bv inside" and seed: "seed \<in> inside"
    and orig: "grid_get g (fst seed) (snd seed) = Some orig" and neq: "orig \<noteq> bv"
  shows "component cardinal_directions g seed \<subseteq> inside"
proof
  fix p assume "p \<in> component cardinal_directions g seed"
  then show "p \<in> inside"
  proof (induction rule: component.induct)
    case seed
    show ?case by (rule \<open>seed \<in> inside\<close>)
  next
    case (step p dr dc)
    obtain r c where p: "p = (r, c)" by (cases p)
    from enc step.IH step.hyps(2,3) p
    have "(r + dr, c + dc) \<in> inside \<or> grid_get g (r + dr) (c + dc) = Some bv"
      unfolding encloses_def by fastforce
    moreover from step.hyps(4) orig neq p have "grid_get g (r + dr) (c + dc) \<noteq> Some bv"
      by simp
    ultimately show ?case using p by simp
  qed
qed

text \<open>
  C3 fails on the code when the boundary value is the empty string: the tests
  \<^verbatim>\<open>boundary_shape and ...\<close> (lines 195, 235) read it as unset. Here the seed and its
  neighbour both hold the boundary value \<open>''''\<close>, and both are overwritten.
\<close>

theorem empty_boundary_cells_mutated:
  "grid_get (fresh_grid [['''', '''']]) 0 1 = Some '''' \<and>
   cells (fst (flood_fill_with_boundary (fresh_grid [['''', '''']]) 0 0 ''X'' (Some ''''))) =
     [[''X'', ''X'']] \<and>
   snd (flood_fill_with_boundary (fresh_grid [['''', '''']]) 0 0 ''X'' (Some '''')) = Inr 2"
  by (simp add: flood_fill_with_boundary_def eval_defs)

text \<open>
  C4 fails on the code for the same reason: the seed holds the supplied boundary value
  \<open>''''\<close>, and the call fills it and returns 1.
\<close>

theorem empty_boundary_seed_filled:
  "grid_get (fresh_grid [['''']]) 0 0 = Some '''' \<and>
   cells (fst (flood_fill_with_boundary (fresh_grid [['''']]) 0 0 ''X'' (Some ''''))) =
     [[''X'']] \<and>
   snd (flood_fill_with_boundary (fresh_grid [['''']]) 0 0 ''X'' (Some '''')) = Inr 1"
  by (simp add: flood_fill_with_boundary_def eval_defs)

text \<open>
  For a boundary value that is not the empty string, the containment holds: on a
  rectangular grid whose rows are pairwise distinct objects, with an in-bounds seed, \<^verbatim>\<open>flood_fill_with_boundary\<close> returns normally,
  every cell that held the boundary value still holds it, and when a region containing
  the seed is closed off by boundary-valued cells, no cell outside the region changes.
\<close>

theorem boundary_containment:
  assumes "rectangular g"
    and "unshared g"
    and "in_bounds (height_of g) (width_of g) start_row start_col"
    and "bv \<noteq> []"
  shows "\<exists>g' n. flood_fill_with_boundary g start_row start_col new_shape (Some bv) =
                  (g', Inr n) \<and>
           (\<forall>r c. in_bounds (height_of g) (width_of g) r c \<longrightarrow>
                  grid_get g r c = Some bv \<longrightarrow> grid_get g' r c = Some bv) \<and>
           (\<forall>inside. (start_row, start_col) \<in> inside \<longrightarrow> encloses g bv inside \<longrightarrow>
              (\<forall>r c. in_bounds (height_of g) (width_of g) r c \<longrightarrow> (r, c) \<notin> inside \<longrightarrow>
                     grid_get g' r c = grid_get g r c))"
proof -
  let ?seed = "(start_row, start_col)"
  let ?C = "component cardinal_directions g ?seed"
  from assms(2) have unsh: "distinct (rows g)" by (simp add: unshared_def)
  note inb0 = assms(3)
  from seed_readable[OF assms(1) inb0] obtain orig where
    orig: "grid_get g start_row start_col = Some orig" by blast
  from orig have orig': "grid_get g (fst ?seed) (snd ?seed) = Some orig" by simp
  have same: ?thesis
    if "flood_fill_with_boundary g start_row start_col new_shape (Some bv) = (g, Inr 0)"
    using that by simp
  show ?thesis
  proof (cases "orig = new_shape \<or> orig = bv")
    case True
    with inb0 assms(4) orig
    have "flood_fill_with_boundary g start_row start_col new_shape (Some bv) = (g, Inr 0)"
      by (auto simp: flood_fill_with_boundary_def)
    then show ?thesis by (rule same)
  next
    case False
    then have neq: "orig \<noteq> new_shape" and nb: "orig \<noteq> bv" by simp_all
    from nb orig
    have "\<not> (truthy (Some bv) \<and> Some bv = grid_get g start_row start_col)" by simp
    from flood_fill_with_boundary_plain[OF this]
      perform_flood_fill_correct[OF assms(1) unsh inb0 orig neq]
    obtain g' n where
      run: "flood_fill_with_boundary g start_row start_col new_shape (Some bv) = (g', Inr n)"
      and fill: "filled_as cardinal_directions g ?seed new_shape g'"
      by auto
    from fill have cells: "\<And>r c. in_bounds (height_of g) (width_of g) r c \<Longrightarrow>
        grid_get g' r c = (if (r, c) \<in> ?C then Some new_shape else grid_get g r c)"
      by (simp add: filled_as_def)
    have keep: "grid_get g' r c = Some bv"
      if inb: "in_bounds (height_of g) (width_of g) r c" and b: "grid_get g r c = Some bv"
      for r c
    proof -
      have "(r, c) \<notin> ?C"
      proof
        assume "(r, c) \<in> ?C"
        from component_value[OF this] orig b nb show False by simp
      qed
      with cells[OF inb] b show ?thesis by simp
    qed
    have ring: "grid_get g' r c = grid_get g r c"
      if s: "?seed \<in> inside" and enc: "encloses g bv inside"
        and inb: "in_bounds (height_of g) (width_of g) r c" and out: "(r, c) \<notin> inside"
      for inside r c
    proof -
      from component_enclosed[OF enc s orig' nb] out have "(r, c) \<notin> ?C" by blast
      with cells[OF inb] show ?thesis by simp
    qed
    from run keep ring show ?thesis by blast
  qed
qed

theorem boundary_containment_witness:
  "rectangular (fresh_grid [[''#'', ''#'', ''#''], [''#'', ''-'', ''#''], [''#'', ''#'', ''#'']]) \<and>
   unshared (fresh_grid [[''#'', ''#'', ''#''], [''#'', ''-'', ''#''], [''#'', ''#'', ''#'']]) \<and>
   in_bounds (height_of (fresh_grid [[''#'', ''#'', ''#''], [''#'', ''-'', ''#''], [''#'', ''#'', ''#'']]))
     (width_of (fresh_grid [[''#'', ''#'', ''#''], [''#'', ''-'', ''#''], [''#'', ''#'', ''#'']])) 1 1 \<and>
   ''#'' \<noteq> [] \<and>
   encloses (fresh_grid [[''#'', ''#'', ''#''], [''#'', ''-'', ''#''], [''#'', ''#'', ''#'']]) ''#'' {(1, 1)} \<and>
   (\<exists>g' n. flood_fill_with_boundary
              (fresh_grid [[''#'', ''#'', ''#''], [''#'', ''-'', ''#''], [''#'', ''#'', ''#'']]) 1 1 ''O''
              (Some ''#'') = (g', Inr n) \<and>
      grid_get g' 0 1 = Some ''#'' \<and>
      grid_get g' 2 2 =
        grid_get (fresh_grid [[''#'', ''#'', ''#''], [''#'', ''-'', ''#''], [''#'', ''#'', ''#'']]) 2 2)"
proof -
  let ?G = "fresh_grid [[''#'', ''#'', ''#''], [''#'', ''-'', ''#''], [''#'', ''#'', ''#'']]"
  have h1: "rectangular ?G" by (simp add: rectangular_def eval_defs)
  have h2: "unshared ?G" by (simp add: unshared_def eval_defs)
  have h3: "in_bounds (height_of ?G) (width_of ?G) 1 1" by (simp add: eval_defs)
  have h4: "''#'' \<noteq> []" by simp
  have h5: "encloses ?G ''#'' {(1, 1)}" by (simp add: encloses_def eval_defs)
  have b1: "in_bounds (height_of ?G) (width_of ?G) 0 1" by (simp add: eval_defs)
  have b2: "grid_get ?G 0 1 = Some ''#''" by (simp add: eval_defs)
  have b3: "in_bounds (height_of ?G) (width_of ?G) 2 2" by (simp add: eval_defs)
  have b4: "(2, 2) \<notin> {(1::int, 1::int)}" by simp
  have b5: "(1, 1) \<in> {(1::int, 1::int)}" by simp
  from boundary_containment[OF h1 h2 h3 h4, of "''O''"] obtain g' n where
    run: "flood_fill_with_boundary ?G 1 1 ''O'' (Some ''#'') = (g', Inr n)"
    and keep: "\<forall>r c. in_bounds (height_of ?G) (width_of ?G) r c \<longrightarrow>
                  grid_get ?G r c = Some ''#'' \<longrightarrow> grid_get g' r c = Some ''#''"
    and ring: "\<forall>inside. (1, 1) \<in> inside \<longrightarrow> encloses ?G ''#'' inside \<longrightarrow>
                 (\<forall>r c. in_bounds (height_of ?G) (width_of ?G) r c \<longrightarrow> (r, c) \<notin> inside \<longrightarrow>
                        grid_get g' r c = grid_get ?G r c)"
    by (elim exE conjE) (rule that)
  from keep[rule_format, OF b1 b2] have k: "grid_get g' 0 1 = Some ''#''" .
  from ring[rule_format, OF b5 h5 b3 b4] have r: "grid_get g' 2 2 = grid_get ?G 2 2" .
  from run k r have ex: "\<exists>g' n. flood_fill_with_boundary ?G 1 1 ''O'' (Some ''#'') = (g', Inr n) \<and>
      grid_get g' 0 1 = Some ''#'' \<and> grid_get g' 2 2 = grid_get ?G 2 2"
    by (intro exI conjI)
  show ?thesis by (intro conjI h1 h2 h3 h4 h5 ex)
qed

text \<open>
  Likewise the early return on a boundary seed: when the seed is in bounds and holds a
  supplied boundary value that is not the empty string, the call returns 0 and the grid
  is the one it was given.
\<close>

theorem boundary_seed_returns_zero:
  assumes "in_bounds (height_of g) (width_of g) start_row start_col"
    and "grid_get g start_row start_col = Some bv"
    and "bv \<noteq> []"
  shows "flood_fill_with_boundary g start_row start_col new_shape (Some bv) = (g, Inr 0)"
  using assms by (simp add: flood_fill_with_boundary_def)

theorem boundary_seed_returns_zero_witness:
  "flood_fill_with_boundary (fresh_grid [[''#'', ''-'']]) 0 0 ''O'' (Some ''#'') =
     (fresh_grid [[''#'', ''-'']], Inr 0)"
  by (rule boundary_seed_returns_zero) (simp_all add: eval_defs)

end
